theory Spec2Isabelle
  imports Main "HOL-Library.Word" "HOL-Library.Sublist"
begin

chapter \<open>The model of player/command.c\<close>

section \<open>Hook manager (player/command.c, hook_remove .. mp_hook_add)\<close>

text \<open>
  \<^verbatim>\<open>struct hook_handler\<close>. The C types are kept: \<^verbatim>\<open>int priority\<close> is a 32-bit word read
  as two's complement, \<^verbatim>\<open>int64_t seq\<close> and \<^verbatim>\<open>uint64_t user_id\<close> are 64-bit words.
\<close>

record hook_handler =
  client :: string
  type :: string
  user_id :: "64 word"
  priority :: "32 word"
  seq :: "64 word"
  legacy :: bool
  active :: bool

text \<open>
  The event handed to the client. The legacy encoding is a client message with the
  arguments \<^verbatim>\<open>"hook_run"\<close>, \<^verbatim>\<open>"%llu"\<close> of the user id and \<^verbatim>\<open>"%llu"\<close> of the sequence
  number; the formatted numbers are kept as the numbers they print.
\<close>

datatype msg_arg = Lit string | Llu "64 word"

datatype mpv_event =
    MPV_EVENT_CLIENT_MESSAGE "msg_arg list"
  | MPV_EVENT_HOOK string "64 word"

text \<open>
  The client registry lives in player/client.c and is not part of this file. Its two
  entry points used here are parameters over an arbitrary registry state \<open>'w\<close>:
  sending may fail (a negative result) and may change the registry.
\<close>

record 'w client_api =
  mp_client_send_event :: "'w \<Rightarrow> string \<Rightarrow> 64 word \<Rightarrow> mpv_event \<Rightarrow> int \<times> 'w"
  mp_client_exists :: "'w \<Rightarrow> string \<Rightarrow> bool"

text \<open>
  What the hook code does to the outside, in order: each attempt to run a handler (the
  handler as it was invoked, and the result of sending), and each \<^verbatim>\<open>mp_wakeup_core\<close>.
\<close>

datatype hook_log = Invoked hook_handler int | Wakeup

text \<open>
  The part of \<^verbatim>\<open>struct command_ctx\<close> the hook code uses (\<^verbatim>\<open>num_hooks\<close> is the length of
  \<open>hooks\<close>), with the client registry and the log of effects.
\<close>

record 'w command_ctx =
  hooks :: "hook_handler list"
  hook_seq :: "64 word"
  clients :: 'w
  effects :: "hook_log list"

definition mp_wakeup_core :: "'w command_ctx \<Rightarrow> 'w command_ctx" where
  "mp_wakeup_core s = s\<lparr>effects := effects s @ [Wakeup]\<rparr>"

text \<open>
  \<^verbatim>\<open>hook_remove\<close> searches the array for the pointer \<^verbatim>\<open>h\<close> and removes that slot. Every
  handler is its own allocation, so the slot found is the one the caller took \<^verbatim>\<open>h\<close>
  from; the model is given that index.
\<close>

definition hook_remove :: "'w command_ctx \<Rightarrow> nat \<Rightarrow> 'w command_ctx" where
  "hook_remove s n = s\<lparr>hooks := take n (hooks s) @ drop (Suc n) (hooks s)\<rparr>"

function mp_hook_test_completion_loop ::
  "'w client_api \<Rightarrow> 'w command_ctx \<Rightarrow> string \<Rightarrow> nat \<Rightarrow> bool \<times> 'w command_ctx" where
  "mp_hook_test_completion_loop api s t n =
     (if n < length (hooks s) then
        (let h = hooks s ! n in
         if active h \<and> type h = t then
           (if \<not> mp_client_exists api (clients s) (client h)
            then (True, hook_remove s n)
            else (False, s))
         else mp_hook_test_completion_loop api s t (Suc n))
      else (True, s))"
  by pat_completeness auto

termination
  by (relation "measure (\<lambda>(api, s, t, n). length (hooks s) - n)") auto

declare mp_hook_test_completion_loop.simps [simp del]

definition mp_hook_test_completion ::
  "'w client_api \<Rightarrow> 'w command_ctx \<Rightarrow> string \<Rightarrow> bool \<times> 'w command_ctx" where
  "mp_hook_test_completion api s t = mp_hook_test_completion_loop api s t 0"

text \<open>\<^verbatim>\<open>invoke_hook_handler\<close> on the handler in slot \<open>n\<close>.\<close>

definition invoke_hook_handler ::
  "'w client_api \<Rightarrow> 'w command_ctx \<Rightarrow> nat \<Rightarrow> int \<times> 'w command_ctx" where
  "invoke_hook_handler api s n =
     (let h = (hooks s ! n)\<lparr>active := True\<rparr>;
          s1 = s\<lparr>hooks := (hooks s)[n := h]\<rparr>;
          (reply_id, msg) =
            (if legacy h
             then (0, MPV_EVENT_CLIENT_MESSAGE [Lit ''hook_run'', Llu (user_id h), Llu (seq h)])
             else (user_id h, MPV_EVENT_HOOK (type h) (seq h)));
          (r, w) = mp_client_send_event api (clients s1) (client h) reply_id msg;
          s2 = s1\<lparr>clients := w, effects := effects s1 @ [Invoked h r]\<rparr>
      in if r < 0 then (r, mp_wakeup_core (hook_remove s2 n)) else (r, s2))"

function run_next_hook_handler ::
  "'w client_api \<Rightarrow> 'w command_ctx \<Rightarrow> string \<Rightarrow> nat \<Rightarrow> int \<times> 'w command_ctx" where
  "run_next_hook_handler api s t n =
     (if n < length (hooks s) then
        (if type (hooks s ! n) = t then invoke_hook_handler api s n
         else run_next_hook_handler api s t (Suc n))
      else (0, mp_wakeup_core s))"
  by pat_completeness auto

termination
  by (relation "measure (\<lambda>(api, s, t, n). length (hooks s) - n)") auto

declare run_next_hook_handler.simps [simp del]

lemma invoke_hook_handler_length:
  "n < length (hooks s) \<Longrightarrow> invoke_hook_handler api s n = (r, s') \<Longrightarrow> r < 0 \<Longrightarrow>
   length (hooks s') < length (hooks s)"
  by (auto simp: invoke_hook_handler_def hook_remove_def mp_wakeup_core_def Let_def
           split: prod.splits if_splits)

lemma run_next_hook_handler_length:
  "run_next_hook_handler api s t n = (r, s') \<Longrightarrow> r < 0 \<Longrightarrow>
   length (hooks s') < length (hooks s)"
proof (induction api s t n rule: run_next_hook_handler.induct)
  case (1 api s t n)
  note unfold = run_next_hook_handler.simps [of api s t n]
  show ?case
  proof (cases "n < length (hooks s)")
    case False
    with "1.prems" unfold show ?thesis by simp
  next
    case inb: True
    show ?thesis
    proof (cases "type (hooks s ! n) = t")
      case True
      with inb "1.prems" unfold show ?thesis
        using invoke_hook_handler_length [of n s api r s'] by simp
    next
      case False
      with inb "1.prems" unfold "1.IH" show ?thesis by simp
    qed
  qed
qed

text \<open>
  \<^verbatim>\<open>mp_hook_start\<close>: the loop repeats while starting failed. Every failure has removed
  one handler, which is why the loop ends.
\<close>

function mp_hook_start :: "'w client_api \<Rightarrow> 'w command_ctx \<Rightarrow> string \<Rightarrow> 'w command_ctx" where
  "mp_hook_start api s t =
     (case run_next_hook_handler api s t 0 of
        (r, s') \<Rightarrow> if r < 0 then mp_hook_start api s' t else s')"
  by pat_completeness auto

termination
  apply (relation "measure (\<lambda>(api, s, t). length (hooks s))")
   apply simp
  apply (simp add: run_next_hook_handler_length [OF sym])
  done

declare mp_hook_start.simps [simp del]

text \<open>
  \<^verbatim>\<open>MPV_ERROR_INVALID_PARAMETER\<close> is declared in libmpv/client.h, which is not part of
  this file; its value there is -4.
\<close>

definition MPV_ERROR_INVALID_PARAMETER :: int where
  "MPV_ERROR_INVALID_PARAMETER = - 4"

text \<open>
  \<^verbatim>\<open>mp_hook_continue\<close>: the search loop from slot \<open>n\<close>. \<^verbatim>\<open>h->seq == id\<close> compares an
  \<^verbatim>\<open>int64_t\<close> with a \<^verbatim>\<open>uint64_t\<close>, that is, the two 64-bit patterns.
\<close>

function mp_hook_continue_loop ::
  "'w client_api \<Rightarrow> 'w command_ctx \<Rightarrow> string \<Rightarrow> 64 word \<Rightarrow> nat \<Rightarrow> int \<times> 'w command_ctx" where
  "mp_hook_continue_loop api s c ident n =
     (if n < length (hooks s) then
        (let h = hooks s ! n in
         if client h = c \<and> seq h = ident then
           (if \<not> active h then (MPV_ERROR_INVALID_PARAMETER, s)
            else run_next_hook_handler api
                   (s\<lparr>hooks := (hooks s)[n := h\<lparr>active := False\<rparr>]\<rparr>) (type h) (n + 1))
         else mp_hook_continue_loop api s c ident (Suc n))
      else (MPV_ERROR_INVALID_PARAMETER, s))"
  by pat_completeness auto

termination
  by (relation "measure (\<lambda>(api, s, c, ident, n). length (hooks s) - n)") auto

declare mp_hook_continue_loop.simps [simp del]

definition mp_hook_continue ::
  "'w client_api \<Rightarrow> 'w command_ctx \<Rightarrow> string \<Rightarrow> 64 word \<Rightarrow> int \<times> 'w command_ctx" where
  "mp_hook_continue api s c ident = mp_hook_continue_loop api s c ident 0"

text \<open>
  \<^verbatim>\<open>compare_hook\<close>. Both subtractions are done in the C types: the priorities in \<^verbatim>\<open>int\<close>,
  the sequence numbers in \<^verbatim>\<open>int64_t\<close> with the difference then cut to the \<^verbatim>\<open>int\<close> the
  function returns. Overflow wraps here, as on the two's complement machines mpv runs on.
\<close>

definition compare_hook :: "hook_handler \<Rightarrow> hook_handler \<Rightarrow> int" where
  "compare_hook h1 h2 =
     (if priority h1 \<noteq> priority h2 then sint (priority h1 - priority h2)
      else sint (ucast (seq h1 - seq h2) :: 32 word))"

text \<open>
  \<^verbatim>\<open>qsort\<close> is the C library's. It is given here as insertion sort driven by the
  comparison function; where the comparison is a total order on the elements, every
  sorting algorithm returns the same array.
\<close>

fun qsort_insert :: "('a \<Rightarrow> 'a \<Rightarrow> int) \<Rightarrow> 'a \<Rightarrow> 'a list \<Rightarrow> 'a list" where
  "qsort_insert cmp x [] = [x]"
| "qsort_insert cmp x (y # ys) =
     (if cmp x y \<le> 0 then x # y # ys else y # qsort_insert cmp x ys)"

definition qsort :: "('a \<Rightarrow> 'a \<Rightarrow> int) \<Rightarrow> 'a list \<Rightarrow> 'a list" where
  "qsort cmp xs = foldr (qsort_insert cmp) xs []"

definition mp_hook_add ::
  "'w command_ctx \<Rightarrow> string \<Rightarrow> string \<Rightarrow> 64 word \<Rightarrow> 32 word \<Rightarrow> bool \<Rightarrow> 'w command_ctx" where
  "mp_hook_add s cl name uid pri leg =
     (let sq = hook_seq s + 1;
          h = \<lparr>client = cl, type = name, user_id = uid, priority = pri, seq = sq,
               legacy = leg, active = False\<rparr>
      in s\<lparr>hook_seq := sq, hooks := qsort compare_hook (hooks s @ [h])\<rparr>)"

subsection \<open>Vocabulary for the hook properties\<close>

text \<open>The handler an acknowledgment names: its client and its sequence number.\<close>

definition hook_matches :: "string \<Rightarrow> 64 word \<Rightarrow> hook_handler \<Rightarrow> bool" where
  "hook_matches c ident h = (client h = c \<and> seq h = ident)"

text \<open>
  The two ways \<^verbatim>\<open>mp_hook_start\<close> may leave the state. Started: the first handler of
  the type is active and the last effect is its event, delivered (a result that is not
  negative). Finished: no handler of the type is left and the last effect is the wakeup
  that tells the core the hook is done.
\<close>

definition hook_started :: "string \<Rightarrow> 'w command_ctx \<Rightarrow> bool" where
  "hook_started t s =
     (\<exists>n r. n < length (hooks s) \<and> type (hooks s ! n) = t \<and> active (hooks s ! n) \<and>
            (\<forall>k<n. type (hooks s ! k) \<noteq> t) \<and> 0 \<le> r \<and>
            effects s \<noteq> [] \<and> last (effects s) = Invoked (hooks s ! n) r)"

definition hook_finished :: "string \<Rightarrow> 'w command_ctx \<Rightarrow> bool" where
  "hook_finished t s =
     ((\<forall>h \<in> set (hooks s). type h \<noteq> t) \<and> effects s \<noteq> [] \<and> last (effects s) = Wakeup)"

text \<open>
  A client registry for the worked examples: the state is the list of connected
  clients, and an event is delivered exactly to a connected client. The two handlers are
  the scenario of two clients on \<^verbatim>\<open>on_load\<close>, A with priority 0 and B with priority 10.
\<close>

definition registry_api :: "string list client_api" where
  "registry_api =
     \<lparr>mp_client_send_event = (\<lambda>w c reply ev. (if c \<in> set w then 0 else - 1, w)),
      mp_client_exists = (\<lambda>w c. c \<in> set w)\<rparr>"

definition on_load_A :: hook_handler where
  "on_load_A = \<lparr>client = ''A'', type = ''on_load'', user_id = 7, priority = 0, seq = 1,
                 legacy = False, active = False\<rparr>"

definition on_load_B :: hook_handler where
  "on_load_B = \<lparr>client = ''B'', type = ''on_load'', user_id = 8, priority = 10, seq = 2,
                 legacy = False, active = False\<rparr>"

definition two_hooks :: "string list \<Rightarrow> string list command_ctx" where
  "two_hooks live =
     mp_hook_add
       (mp_hook_add \<lparr>hooks = [], hook_seq = 0, clients = live, effects = []\<rparr>
          ''A'' ''on_load'' 7 0 False)
       ''B'' ''on_load'' 8 10 False"

definition B_running :: "string list \<Rightarrow> string list command_ctx" where
  "B_running live =
     \<lparr>hooks = [on_load_B\<lparr>active := True\<rparr>], hook_seq = 2, clients = live,
      effects = [Invoked (on_load_A\<lparr>active := True\<rparr>) (- 1), Wakeup,
                 Invoked (on_load_B\<lparr>active := True\<rparr>) 0]\<rparr>"

definition A_failed :: "string list \<Rightarrow> string list command_ctx" where
  "A_failed live =
     \<lparr>hooks = [on_load_B], hook_seq = 2, clients = live,
      effects = [Invoked (on_load_A\<lparr>active := True\<rparr>) (- 1), Wakeup]\<rparr>"

definition A_running :: "string list \<Rightarrow> string list command_ctx" where
  "A_running live =
     \<lparr>hooks = [on_load_A\<lparr>active := True\<rparr>, on_load_B], hook_seq = 2, clients = live,
      effects = [Invoked (on_load_A\<lparr>active := True\<rparr>) 0]\<rparr>"

subsection \<open>The order of the handlers and the protocol of the callers\<close>

text \<open>
  The order of the handlers: by priority (a signed number), then by sequence number
  (counted up from 1). The comparison function agrees with it for the handlers in range:
  priorities in $[-2^{30}, 2^{30})$ and sequence numbers below $2^{31}$, where neither
  subtraction of \<^verbatim>\<open>compare_hook\<close> overflows.
\<close>

definition hook_before :: "hook_handler \<Rightarrow> hook_handler \<Rightarrow> bool" where
  "hook_before h1 h2 =
     (sint (priority h1) < sint (priority h2) \<or>
      (priority h1 = priority h2 \<and> uint (seq h1) < uint (seq h2)))"










text \<open>
  The handlers run, in order, according to a log, and those run between two states.
\<close>

fun invoked :: "hook_log list \<Rightarrow> hook_handler list" where
  "invoked [] = []"
| "invoked (Invoked h r # es) = h # invoked es"
| "invoked (Wakeup # es) = invoked es"








section \<open>Change notification: which property a name stands for\<close>

text \<open>
  C strings are lists of characters without the terminating NUL. \<^verbatim>\<open>strncmp\<close> and
  \<^verbatim>\<open>strcmp\<close> are the C library's: the result is the difference of the first two
  characters that differ (as \<^verbatim>\<open>unsigned char\<close>, the end of a string counting as 0),
  and \<^verbatim>\<open>strncmp\<close> looks at no more than \<open>n\<close> characters.
\<close>

fun strncmp :: "string \<Rightarrow> string \<Rightarrow> nat \<Rightarrow> int" where
  "strncmp a b 0 = 0"
| "strncmp [] [] (Suc n) = 0"
| "strncmp [] (y # ys) (Suc n) = - int (of_char y)"
| "strncmp (x # xs) [] (Suc n) = int (of_char x)"
| "strncmp (x # xs) (y # ys) (Suc n) =
     (if x = y then strncmp xs ys n else int (of_char x) - int (of_char y))"

fun strcmp :: "string \<Rightarrow> string \<Rightarrow> int" where
  "strcmp [] [] = 0"
| "strcmp [] (y # ys) = - int (of_char y)"
| "strcmp (x # xs) [] = int (of_char x)"
| "strcmp (x # xs) (y # ys) =
     (if x = y then strcmp xs ys else int (of_char x) - int (of_char y))"

text \<open>
  \<^verbatim>\<open>prefix_len\<close>: the position of the first \<^verbatim>\<open>'/'\<close>, or the length plus one when
  there is none.
\<close>

definition prefix_len :: "string \<Rightarrow> nat" where
  "prefix_len p =
     (if CHR ''/'' \<in> set p then length (takeWhile (\<lambda>c. c \<noteq> CHR ''/'') p)
      else length p + 1)"

definition match_property :: "string \<Rightarrow> string \<Rightarrow> bool" where
  "match_property a b =
     (if strcmp a ''*'' = 0 then True
      else
        (let a1 = (if strncmp a ''options/'' 8 = 0 then drop 8 a else a);
             b1 = (if strncmp b ''options/'' 8 = 0 then drop 8 b else b);
             len_a = prefix_len a1;
             len_b = prefix_len b1
         in strncmp a1 b1 (min len_a len_b) = 0))"

text \<open>
  For the statement of what \<^verbatim>\<open>match_property\<close> computes: a name without its leading
  \<^verbatim>\<open>options/\<close>, and the part of a name before its first \<^verbatim>\<open>'/'\<close>.
\<close>

definition strip_options :: "string \<Rightarrow> string" where
  "strip_options p = (if prefix ''options/'' p then drop 8 p else p)"

definition name_head :: "string \<Rightarrow> string" where
  "name_head p = takeWhile (\<lambda>c. c \<noteq> CHR ''/'') p"

section \<open>Property access (mp_property_do and the option bridge)\<close>

text \<open>
  An action and its argument, \<^verbatim>\<open>(int action, void *val)\<close>. The actions this file names
  carry the argument they are called with; a key action carries the key and the nested
  action of its \<^verbatim>\<open>struct m_property_action_arg\<close>; every other action code of
  options/m_property.h is \<open>M_PROPERTY_OTHER\<close>. What a call writes back through
  \<^verbatim>\<open>val\<close> is its output.
\<close>

datatype 'a m_property_action =
    M_PROPERTY_GET
  | M_PROPERTY_PRINT
  | M_PROPERTY_GET_TYPE
  | M_PROPERTY_GET_CONSTRICTED_TYPE
  | M_PROPERTY_SET 'a
  | M_PROPERTY_SWITCH 'a
  | M_PROPERTY_SET_STRING string
  | M_PROPERTY_SET_NODE 'a
  | M_PROPERTY_MULTIPLY 'a
  | M_PROPERTY_KEY_ACTION string "'a m_property_action"
  | M_PROPERTY_OTHER int

datatype ('t, 'a) m_property_out = No_out | Out_type 't | Out_value 'a | Out_string string

text \<open>
  The result codes are declared in options/m_property.h and options/m_option.h, which
  are not part of this file; these are their values there.
\<close>

definition M_PROPERTY_OK :: int where "M_PROPERTY_OK = 1"

definition M_PROPERTY_ERROR :: int where "M_PROPERTY_ERROR = 0"

definition M_PROPERTY_UNAVAILABLE :: int where "M_PROPERTY_UNAVAILABLE = - 1"

definition M_PROPERTY_NOT_IMPLEMENTED :: int where "M_PROPERTY_NOT_IMPLEMENTED = - 2"

definition M_PROPERTY_UNKNOWN :: int where "M_PROPERTY_UNKNOWN = - 3"

definition M_OPT_INVALID :: int where "M_OPT_INVALID = - 3"

text \<open>
  The player state the property code works on: the rest of the player (\<open>player\<close>,
  whatever the property handlers read and write), the deprecation counter, whether
  verbose messages are printed, and what has been sent out: the property change
  notifications (\<^verbatim>\<open>mp_client_property_change\<close>), the verbose lines and the OSD messages.
\<close>

datatype verbose_line = Set_property string "string option" int

record 'p property_ctx =
  player :: 'p
  silence_option_deprecations :: int
  msgl_v :: bool
  property_changes :: "string list"
  verbose :: "verbose_line list"
  osd_msgs :: "string list"

record ('t) m_config_option =
  co_name :: string
  co_opt :: 't

text \<open>
  The collaborators outside this file are parameters: the property dispatcher
  \<^verbatim>\<open>m_property_do\<close> over the property table, the lookup in that table (whether the
  property found is flagged \<^verbatim>\<open>is_option\<close>), the configuration layer, and the parser and
  printer of option values. \<open>'t\<close> is an option's type description (\<^verbatim>\<open>struct m_option\<close>),
  \<open>'a\<close> a value; \<open>zero_option\<close> and \<open>zero_value\<close> are the zero-initialised ones.
\<close>

record ('p, 't, 'a) property_api =
  m_property_do ::
    "string \<Rightarrow> 'a m_property_action \<Rightarrow> 'p property_ctx \<Rightarrow>
       int \<times> ('t, 'a) m_property_out \<times> 'p property_ctx"
  m_property_list_find :: "string \<Rightarrow> bool option"
  m_config_set_option_raw_direct ::
    "'t m_config_option \<Rightarrow> 'a \<Rightarrow> int \<Rightarrow> 'p property_ctx \<Rightarrow> int \<times> 'p property_ctx"
  m_config_mark_co_flags :: "'t m_config_option \<Rightarrow> int \<Rightarrow> 'p property_ctx \<Rightarrow> 'p property_ctx"
  m_option_parse :: "'t \<Rightarrow> string \<Rightarrow> string \<Rightarrow> int \<times> 'a"
  m_option_print :: "'t \<Rightarrow> 'a \<Rightarrow> string option"
  m_option_print_node :: "'a \<Rightarrow> string option"
  zero_option :: 't
  zero_value :: 'a

definition mp_notify_property :: "'p property_ctx \<Rightarrow> string \<Rightarrow> 'p property_ctx" where
  "mp_notify_property s name = s\<lparr>property_changes := property_changes s @ [name]\<rparr>"

fun is_property_set :: "'a m_property_action \<Rightarrow> bool" where
  "is_property_set (M_PROPERTY_SET v) = True"
| "is_property_set (M_PROPERTY_SWITCH v) = True"
| "is_property_set (M_PROPERTY_SET_STRING v) = True"
| "is_property_set (M_PROPERTY_SET_NODE v) = True"
| "is_property_set (M_PROPERTY_MULTIPLY v) = True"
| "is_property_set (M_PROPERTY_KEY_ACTION k a) = is_property_set a"
| "is_property_set _ = False"

definition mp_property_do_silent ::
  "('p, 't, 'a) property_api \<Rightarrow> string \<Rightarrow> 'a m_property_action \<Rightarrow> 'p property_ctx \<Rightarrow>
     int \<times> ('t, 'a) m_property_out \<times> 'p property_ctx" where
  "mp_property_do_silent api name action s =
     (let s1 = s\<lparr>silence_option_deprecations := silence_option_deprecations s + 1\<rparr>;
          (r, out, s2) = m_property_do api name action s1;
          s3 = s2\<lparr>silence_option_deprecations := silence_option_deprecations s2 - 1\<rparr>
      in if r = M_PROPERTY_OK \<and> is_property_set action
         then (r, out, mp_notify_property s3 name)
         else (r, out, s3))"

definition mp_property_do ::
  "('p, 't, 'a) property_api \<Rightarrow> string \<Rightarrow> 'a m_property_action \<Rightarrow> 'p property_ctx \<Rightarrow>
     int \<times> ('t, 'a) m_property_out \<times> 'p property_ctx" where
  "mp_property_do api name action s =
     (let (r, out, s1) = mp_property_do_silent api name action s
      in if msgl_v s1 \<and> is_property_set action then
           (let t = (case action of
                       M_PROPERTY_SET_NODE v \<Rightarrow> m_option_print_node api v
                     | M_PROPERTY_SET_STRING v \<Rightarrow> Some v
                     | _ \<Rightarrow> None)
            in (r, out, s1\<lparr>verbose := verbose s1 @ [Set_property name t r]\<rparr>))
         else (r, out, s1))"

text \<open>
  \<^verbatim>\<open>mp_on_set_option\<close>. The three assertions compare the type the property reports with
  the option's; a failed assertion aborts the program.
\<close>

datatype failure = Assertion_failed

definition direct_option ::
  "('p, 't, 'a) property_api \<Rightarrow> 'p property_ctx \<Rightarrow> 't m_config_option \<Rightarrow> 'a \<Rightarrow> int \<Rightarrow>
     failure + int \<times> 'p property_ctx" where
  "direct_option api s co data flags =
     Inr (m_config_set_option_raw_direct api co data flags (mp_notify_property s (co_name co)))"

definition mp_on_set_option ::
  "('p, 't, 'a) property_api \<Rightarrow> 'p property_ctx \<Rightarrow> 't m_config_option \<Rightarrow> 'a \<Rightarrow> int \<Rightarrow>
     failure + int \<times> 'p property_ctx" where
  "mp_on_set_option api s co data flags =
     (let name = co_name co in
      if m_property_list_find api name = Some True then direct_option api s co data flags
      else
        (case mp_property_do_silent api name M_PROPERTY_GET_TYPE s of
           (r, out, s1) \<Rightarrow>
             if r = M_PROPERTY_UNKNOWN then direct_option api s1 co data flags
             else if r \<noteq> M_PROPERTY_OK then Inr (M_OPT_INVALID, s1)
             else if (case out of Out_type ty \<Rightarrow> ty | _ \<Rightarrow> zero_option api) \<noteq> co_opt co
               then Inl Assertion_failed
             else
               (case mp_property_do_silent api name (M_PROPERTY_SET data) s1 of
                  (r2, out2, s2) \<Rightarrow>
                    if r2 \<noteq> M_PROPERTY_OK then Inr (M_OPT_INVALID, s2)
                    else Inr (0, m_config_mark_co_flags api co flags s2))))"

subsection \<open>Changing a property from a command\<close>

definition set_osd_msg :: "'p property_ctx \<Rightarrow> string \<Rightarrow> 'p property_ctx" where
  "set_osd_msg s msg = s\<lparr>osd_msgs := osd_msgs s @ [msg]\<rparr>"

text \<open>
  The part of \<^verbatim>\<open>struct mp_cmd_ctx\<close> a handler works with: the argument values and the
  success flag. For the property commands the arguments are strings.
\<close>

record 'v mp_cmd_ctx =
  args :: "'v list"
  success :: bool

definition show_property_status ::
  "string mp_cmd_ctx \<Rightarrow> string \<Rightarrow> int \<Rightarrow> 'p property_ctx \<Rightarrow>
     string mp_cmd_ctx \<times> 'p property_ctx" where
  "show_property_status cmd name r s =
     (if r = M_PROPERTY_OK \<or> r = M_PROPERTY_UNAVAILABLE then
        (if r = M_PROPERTY_UNAVAILABLE then (cmd\<lparr>success := False\<rparr>, s) else (cmd, s))
      else if r = M_PROPERTY_UNKNOWN then
        (cmd\<lparr>success := False\<rparr>, set_osd_msg s (''Unknown property: '' @ [CHR 0x27] @ name @ [CHR 0x27]))
      else if r \<le> 0 then
        (cmd\<lparr>success := False\<rparr>, set_osd_msg s (''Failed to set property '' @ [CHR 0x27] @ name @ [CHR 0x27]))
      else (cmd, s))"

definition change_property_cmd ::
  "('p, 't, 'a) property_api \<Rightarrow> string mp_cmd_ctx \<Rightarrow> string \<Rightarrow> 'a m_property_action \<Rightarrow>
     'p property_ctx \<Rightarrow> string mp_cmd_ctx \<times> 'p property_ctx" where
  "change_property_cmd api cmd name action s =
     (case mp_property_do api name action s of
        (r, out, s') \<Rightarrow> show_property_status cmd name r s')"

definition bstr0 :: "string option \<Rightarrow> string" where
  "bstr0 p = (case p of None \<Rightarrow> [] | Some str \<Rightarrow> str)"

definition compare_values :: "('p, 't, 'a) property_api \<Rightarrow> 't \<Rightarrow> 'a \<Rightarrow> 'a \<Rightarrow> bool" where
  "compare_values api ty a b =
     (let as = m_option_print api ty a; bs = m_option_print api ty b
      in bstr0 as = bstr0 bs)"

text \<open>
  The search loop of \<^verbatim>\<open>cmd_cycle_values\<close> from argument \<open>n\<close>: the index of the first
  argument that parses and compares equal to the current value, or -1.
\<close>

function cycle_values_find ::
  "('p, 't, 'a) property_api \<Rightarrow> 't \<Rightarrow> string \<Rightarrow> 'a \<Rightarrow> string list \<Rightarrow> nat \<Rightarrow> int" where
  "cycle_values_find api prop name curval as n =
     (if n < length as then
        (case m_option_parse api prop name (as ! n) of
           (r, val) \<Rightarrow>
             if r < 0 then cycle_values_find api prop name curval as (Suc n)
             else if compare_values api prop curval val then int n
             else cycle_values_find api prop name curval as (Suc n))
      else - 1)"
  by pat_completeness auto

termination
  by (relation "measure (\<lambda>(api, prop, name, curval, as, n). length as - n)") auto

declare cycle_values_find.simps [simp del]

text \<open>
  \<^verbatim>\<open>cmd_cycle_values\<close>. The command table gives the command two required arguments, so
  the reads of the first two arguments are in range; a context with fewer has no result.
\<close>

definition cmd_cycle_values ::
  "('p, 't, 'a) property_api \<Rightarrow> string mp_cmd_ctx \<Rightarrow> 'p property_ctx \<Rightarrow>
     (string mp_cmd_ctx \<times> 'p property_ctx) option" where
  "cmd_cycle_values api cmd s =
     (if length (args cmd) < 2 then None
      else
        (let (first, dir) = (if strcmp (args cmd ! 0) ''!reverse'' = 0 then (1, - 1) else (0, 1 :: int));
             name = args cmd ! first;
             first = first + 1;
             num_args = length (args cmd)
         in if first \<ge> num_args then Some (cmd\<lparr>success := False\<rparr>, s)
            else
              (case mp_property_do api name M_PROPERTY_GET_TYPE s of
                 (r, out, s1) \<Rightarrow>
                   if r \<le> 0 then Some (show_property_status cmd name r s1)
                   else
                     (let prop = (case out of Out_type ty \<Rightarrow> ty | _ \<Rightarrow> zero_option api) in
                      case mp_property_do api name M_PROPERTY_GET s1 of
                        (r, out, s2) \<Rightarrow>
                          if r \<le> 0 then Some (show_property_status cmd name r s2)
                          else
                            (let curval = (case out of Out_value v \<Rightarrow> v | _ \<Rightarrow> zero_value api);
                                 current = cycle_values_find api prop name curval (args cmd) first;
                                 current =
                                   (if current \<ge> 0 then
                                      (let current = current + dir;
                                           current = (if current < int first then int num_args - 1 else current);
                                           current = (if current \<ge> int num_args then int first else current)
                                       in current)
                                    else (if dir > 0 then int first else int num_args - 1))
                             in Some (change_property_cmd api cmd name
                                        (M_PROPERTY_SET_STRING (args cmd ! nat current)) s2))))))"

subsection \<open>Vocabulary and a worked example\<close>

text \<open>
  Notifications are sent to clients and cannot be taken back: the collaborators only
  add to the notifications sent so far. \<open>new_changes s s'\<close> are those sent between two
  states.
\<close>

definition api_keeps_changes :: "('p, 't, 'a) property_api \<Rightarrow> bool" where
  "api_keeps_changes api =
     ((\<forall>name action s.
         prefix (property_changes s)
           (property_changes (snd (snd (m_property_do api name action s))))) \<and>
      (\<forall>co data flags s.
         prefix (property_changes s)
           (property_changes (snd (m_config_set_option_raw_direct api co data flags s)))) \<and>
      (\<forall>co flags s.
         prefix (property_changes s) (property_changes (m_config_mark_co_flags api co flags s))))"

definition new_changes :: "'p property_ctx \<Rightarrow> 'p property_ctx \<Rightarrow> string list" where
  "new_changes s s' = drop (length (property_changes s)) (property_changes s')"

text \<open>
  A candidate of cycle-values is the current value when it parses with the property's
  type and prints as the current value prints.
\<close>

definition candidate_matches ::
  "('p, 't, 'a) property_api \<Rightarrow> 't \<Rightarrow> string \<Rightarrow> 'a \<Rightarrow> string \<Rightarrow> bool" where
  "candidate_matches api prop name curval str =
     (case m_option_parse api prop name str of
        (r, val) \<Rightarrow> 0 \<le> r \<and> bstr0 (m_option_print api prop curval) = bstr0 (m_option_print api prop val))"

text \<open>
  The example: a player whose only property is the flag \<^verbatim>\<open>pause\<close>, parsed from
  \<^verbatim>\<open>yes\<close>, \<^verbatim>\<open>no\<close>, \<^verbatim>\<open>1\<close> and \<^verbatim>\<open>0\<close> and printed as \<^verbatim>\<open>yes\<close> or \<^verbatim>\<open>no\<close>.
\<close>

definition parse_flag :: "string \<Rightarrow> int \<times> int" where
  "parse_flag str =
     (if str = ''yes'' \<or> str = ''1'' then (0, 1)
      else if str = ''no'' \<or> str = ''0'' then (0, 0)
      else (- 1, 0))"

definition pause_property ::
  "string \<Rightarrow> int m_property_action \<Rightarrow> int property_ctx \<Rightarrow>
     int \<times> (string, int) m_property_out \<times> int property_ctx" where
  "pause_property name action s =
     (if name \<noteq> ''pause'' then (M_PROPERTY_UNKNOWN, No_out, s)
      else
        (case action of
           M_PROPERTY_GET \<Rightarrow> (M_PROPERTY_OK, Out_value (player s), s)
         | M_PROPERTY_GET_TYPE \<Rightarrow> (M_PROPERTY_OK, Out_type ''flag'', s)
         | M_PROPERTY_SET v \<Rightarrow> (M_PROPERTY_OK, No_out, s\<lparr>player := v\<rparr>)
         | M_PROPERTY_SET_STRING str \<Rightarrow>
             (case parse_flag str of
                (r, v) \<Rightarrow> if r < 0 then (M_PROPERTY_ERROR, No_out, s)
                          else (M_PROPERTY_OK, No_out, s\<lparr>player := v\<rparr>))
         | _ \<Rightarrow> (M_PROPERTY_NOT_IMPLEMENTED, No_out, s)))"

definition pause_api :: "(int, string, int) property_api" where
  "pause_api =
     \<lparr>m_property_do = pause_property,
      m_property_list_find = (\<lambda>name. if name = ''pause'' then Some False else None),
      m_config_set_option_raw_direct = (\<lambda>co data flags s. (0, s\<lparr>player := data\<rparr>)),
      m_config_mark_co_flags = (\<lambda>co flags s. s),
      m_option_parse = (\<lambda>ty name str. parse_flag str),
      m_option_print = (\<lambda>ty v. Some (if v = 0 then ''no'' else ''yes'')),
      m_option_print_node = (\<lambda>v. None),
      zero_option = [],
      zero_value = 0\<rparr>"

definition playing :: "int property_ctx" where
  "playing = \<lparr>player = 0, silence_option_deprecations = 0, msgl_v = False,
              property_changes = [], verbose = [], osd_msgs = []\<rparr>"

definition pause_option :: "string m_config_option" where
  "pause_option = \<lparr>co_name = ''pause'', co_opt = ''flag''\<rparr>"

definition cycle_pause :: "string mp_cmd_ctx" where
  "cycle_pause = \<lparr>args = [''pause'', ''1'', ''0''], success = True\<rparr>"

section \<open>The command pipeline (cmd_list .. run_command)\<close>

text \<open>
  A command's handler is either \<^verbatim>\<open>cmd_list\<close>, which is in this file and runs other
  commands, or one of the handlers that run to completion; those are named by \<open>'h\<close> and
  run by a parameter. \<^verbatim>\<open>struct mp_cmd_def\<close> with the fields the pipeline reads.
\<close>

datatype 'h cmd_handler = Cmd_list | Handler 'h

record 'h mp_cmd_def =
  cmd_name :: string
  handler :: "'h cmd_handler"
  exec_async :: bool
  spawn_thread :: bool
  can_abort :: bool
  abort_on_playback_end :: bool

text \<open>
  \<^verbatim>\<open>struct mp_cmd\<close>: the definition, the two flags \<^verbatim>\<open>run_command\<close> and the list driver
  test, and the arguments. The argument of a list command is the chain of its
  sub-commands (\<^verbatim>\<open>args[0].v.p\<close>, linked by \<^verbatim>\<open>queue_next\<close>).
\<close>

datatype 'h mp_cmd =
  Mp_cmd (cmd_def: "'h mp_cmd_def") (MP_ASYNC_CMD: bool) (MP_EXPAND_PROPERTIES: bool)
    (cmd_args: "'h mp_cmd_arg list")
and 'h mp_cmd_arg = Arg_string string | Arg_int int | Arg_cmds "'h mp_cmd list"

text \<open>
  \<^verbatim>\<open>struct mp_abort_entry\<close>, and the completion callback of a context with its private
  pointer: the list driver's \<^verbatim>\<open>on_cmd_list_sub_completion\<close> with the address of the list
  context, or a callback of whoever submitted the command, named by a number.
\<close>

record mp_abort_entry =
  coupled_to_playback :: bool

datatype completion = On_cmd_list_sub_completion nat | Caller_callback nat

text \<open>
  \<^verbatim>\<open>struct mp_cmd_ctx\<close> as \<^verbatim>\<open>run_command\<close> builds it (\<open>args\<close> is the command's argument
  array itself, not a copy), and \<^verbatim>\<open>struct cmd_list_ctx\<close>; the sub-commands yet to run are
  in the parent's first argument.
\<close>

record 'h run_ctx = "'h mp_cmd_arg mp_cmd_ctx" +
  def :: "'h mp_cmd_def"
  abort :: "mp_abort_entry option"
  completed :: bool
  on_completion :: "completion option"

record cmd_list_ctx =
  parent :: nat
  current_valid :: bool
  current :: nat
  completed_recursive :: bool

text \<open>
  What the pipeline does, in order: a handler is run on a context, a completion callback
  is invoked on a context (with the success flag it sees), a context or a list
  context is freed, a job is queued on the worker pool.
\<close>

datatype 'h pipeline_event =
    Handler_run nat 'h
  | Completion nat completion bool
  | Ctx_freed nat
  | List_freed nat
  | Job_queued nat

text \<open>
  The player: the state the handlers work on (\<open>world\<close>), the heap of contexts and list
  contexts by address with the next free address, the jobs queued on the worker pool,
  \<^verbatim>\<open>outstanding_async\<close>, the registered abort entries (by their context), and the trace.
\<close>

record ('p, 'h) MPContext =
  world :: 'p
  ctxs :: "nat \<rightharpoonup> 'h run_ctx"
  lists :: "nat \<rightharpoonup> cmd_list_ctx"
  next_addr :: nat
  thread_pool :: "nat list"
  outstanding_async :: int
  abort_list :: "nat list"
  trace :: "'h pipeline_event list"

text \<open>
  The collaborators: the handlers that run to completion (they get the arguments, work
  on the player and say whether the command succeeded), property expansion (no result
  when the string is malformed) and the worker pool (whether it takes a job).
\<close>

record ('p, 'h) pipeline_api =
  run_handler :: "'h \<Rightarrow> 'h mp_cmd_arg list \<Rightarrow> 'p \<Rightarrow> bool \<times> 'p"
  mp_property_expand_string :: "'p \<Rightarrow> string \<Rightarrow> string option"
  mp_thread_pool_queue :: "'p \<Rightarrow> bool"

text \<open>
  The functions below call each other without a bound the types could see, so they count
  calls down from a given depth (fuel). A call has no resulting state when the depth is
  used up, when an assertion fails, or when a pointer is followed that is not allocated.
\<close>

datatype stop = Out_of_fuel | Failed_assertion | Invalid_pointer

text \<open>
  The expansion loop of \<^verbatim>\<open>run_command\<close>: string arguments are replaced by their
  expansion, in order, up to the first that fails.
\<close>

fun expand_args ::
  "('p, 'h) pipeline_api \<Rightarrow> 'p \<Rightarrow> 'h mp_cmd_arg list \<Rightarrow> 'h mp_cmd_arg list \<times> bool" where
  "expand_args api w [] = ([], True)"
| "expand_args api w (Arg_string v # rest) =
     (case mp_property_expand_string api w v of
        None \<Rightarrow> (Arg_string v # rest, False)
      | Some v' \<Rightarrow> (case expand_args api w rest of (rest', ok) \<Rightarrow> (Arg_string v' # rest', ok)))"
| "expand_args api w (other # rest) =
     (case expand_args api w rest of (rest', ok) \<Rightarrow> (other # rest', ok))"

function (sequential) run_command ::
    "('p, 'h) pipeline_api \<Rightarrow> nat \<Rightarrow> nat \<Rightarrow> ('p, 'h) MPContext \<Rightarrow> 'h mp_cmd \<Rightarrow>
       mp_abort_entry option \<Rightarrow> completion option \<Rightarrow> stop + ('p, 'h) MPContext"
  and call_handler ::
    "('p, 'h) pipeline_api \<Rightarrow> nat \<Rightarrow> nat \<Rightarrow> ('p, 'h) MPContext \<Rightarrow> nat \<Rightarrow>
       stop + ('p, 'h) MPContext"
  and cmd_list ::
    "('p, 'h) pipeline_api \<Rightarrow> nat \<Rightarrow> nat \<Rightarrow> ('p, 'h) MPContext \<Rightarrow> nat \<Rightarrow>
       stop + ('p, 'h) MPContext"
  and continue_cmd_list ::
    "('p, 'h) pipeline_api \<Rightarrow> nat \<Rightarrow> nat \<Rightarrow> ('p, 'h) MPContext \<Rightarrow> nat \<Rightarrow>
       stop + ('p, 'h) MPContext"
  and on_cmd_list_sub_completion ::
    "('p, 'h) pipeline_api \<Rightarrow> nat \<Rightarrow> nat \<Rightarrow> ('p, 'h) MPContext \<Rightarrow> nat \<Rightarrow>
       stop + ('p, 'h) MPContext"
  and mp_cmd_ctx_complete ::
    "('p, 'h) pipeline_api \<Rightarrow> nat \<Rightarrow> nat \<Rightarrow> ('p, 'h) MPContext \<Rightarrow> nat \<Rightarrow>
       stop + ('p, 'h) MPContext"
where
  "run_command api 0 tid s cmd ab cb = Inl Out_of_fuel"
| "run_command api (Suc f) tid s cmd ab cb =
     (let d = cmd_def cmd;
          ab1 = (if ab = None \<and> can_abort d then Some \<lparr>coupled_to_playback = False\<rparr> else ab)
      in if can_abort d \<noteq> (ab1 \<noteq> None) then Inl Failed_assertion
         else
           (let ab2 = map_option
                        (\<lambda>e. e\<lparr>coupled_to_playback :=
                                  coupled_to_playback e \<or> abort_on_playback_end d\<rparr>) ab1;
                a = next_addr s;
                ctx = \<lparr>args = cmd_args cmd, success = True, def = d, abort = ab2,
                       completed = True, on_completion = cb\<rparr>;
                s1 = s\<lparr>ctxs := (ctxs s)(a \<mapsto> ctx), next_addr := a + 1,
                       abort_list := (if ab2 \<noteq> None then abort_list s @ [a] else abort_list s)\<rparr>;
                (args', ok) = (if MP_EXPAND_PROPERTIES cmd
                               then expand_args api (world s1) (cmd_args cmd)
                               else (cmd_args cmd, True));
                ctx = ctx\<lparr>args := args'\<rparr>;
                s2 = s1\<lparr>ctxs := (ctxs s1)(a \<mapsto> ctx)\<rparr>
            in if \<not> ok then
                 mp_cmd_ctx_complete api f tid
                   (s2\<lparr>ctxs := (ctxs s2)(a \<mapsto> ctx\<lparr>success := False\<rparr>)\<rparr>) a
               else if spawn_thread d then
                 (let s3 = s2\<lparr>outstanding_async := outstanding_async s2 + 1\<rparr>
                  in if \<not> mp_thread_pool_queue api (world s3) then
                       mp_cmd_ctx_complete api f tid
                         (s3\<lparr>outstanding_async := outstanding_async s3 - 1,
                             ctxs := (ctxs s3)(a \<mapsto> ctx\<lparr>success := False\<rparr>)\<rparr>) a
                     else Inr (s3\<lparr>thread_pool := thread_pool s3 @ [a],
                                  trace := trace s3 @ [Job_queued a]\<rparr>))
               else
                 (case call_handler api f tid s2 a of
                    Inl e \<Rightarrow> Inl e
                  | Inr s3 \<Rightarrow>
                      if \<not> exec_async d then mp_cmd_ctx_complete api f tid s3 a else Inr s3)))"
| "call_handler api 0 tid s a = Inl Out_of_fuel"
| "call_handler api (Suc f) tid s a =
     (case ctxs s a of
        None \<Rightarrow> Inl Invalid_pointer
      | Some ctx \<Rightarrow>
          (case handler (def ctx) of
             Cmd_list \<Rightarrow> cmd_list api f tid s a
           | Handler h \<Rightarrow>
               (case run_handler api h (args ctx) (world s) of
                  (ok, w) \<Rightarrow>
                    Inr (s\<lparr>world := w, ctxs := (ctxs s)(a \<mapsto> ctx\<lparr>success := ok\<rparr>),
                           trace := trace s @ [Handler_run a h]\<rparr>))))"
| "cmd_list api 0 tid s a = Inl Out_of_fuel"
| "cmd_list api (Suc f) tid s a =
     (case ctxs s a of
        None \<Rightarrow> Inl Invalid_pointer
      | Some ctx \<Rightarrow>
          (let l = next_addr s;
               s1 = s\<lparr>ctxs := (ctxs s)(a \<mapsto> ctx\<lparr>completed := False\<rparr>),
                      lists := (lists s)(l \<mapsto> \<lparr>parent = a, current_valid = False, current = 0,
                                                completed_recursive = False\<rparr>),
                      next_addr := l + 1\<rparr>
           in continue_cmd_list api f tid s1 l))"
| "continue_cmd_list api 0 tid s l = Inl Out_of_fuel"
| "continue_cmd_list api (Suc f) tid s l =
     (case lists s l of
        None \<Rightarrow> Inl Invalid_pointer
      | Some lst \<Rightarrow>
          (case ctxs s (parent lst) of
             None \<Rightarrow> Inl Invalid_pointer
           | Some p \<Rightarrow>
               (case args p of
                  Arg_cmds (sub # rest) # others \<Rightarrow>
                    (let s1 = s\<lparr>ctxs := (ctxs s)(parent lst \<mapsto> p\<lparr>args := Arg_cmds rest # others\<rparr>)\<rparr>
                     in if MP_ASYNC_CMD sub then
                          (case run_command api f tid s1 sub None None of
                             Inl e \<Rightarrow> Inl e
                           | Inr s2 \<Rightarrow> continue_cmd_list api f tid s2 l)
                        else
                          (let s2 = s1\<lparr>lists := (lists s1)
                                       (l \<mapsto> lst\<lparr>completed_recursive := False,
                                                  current_valid := True, current := tid\<rparr>)\<rparr>
                           in case run_command api f tid s2 sub None
                                     (Some (On_cmd_list_sub_completion l)) of
                                Inl e \<Rightarrow> Inl e
                              | Inr s3 \<Rightarrow>
                                  (case lists s3 l of
                                     None \<Rightarrow> Inl Invalid_pointer
                                   | Some lst3 \<Rightarrow>
                                       (let s4 = s3\<lparr>lists := (lists s3)
                                                    (l \<mapsto> lst3\<lparr>current_valid := False\<rparr>)\<rparr>
                                        in if \<not> completed_recursive lst3 then Inr s4
                                           else continue_cmd_list api f tid s4 l))))
                | Arg_cmds [] # others \<Rightarrow>
                    (case mp_cmd_ctx_complete api f tid s (parent lst) of
                       Inl e \<Rightarrow> Inl e
                     | Inr s1 \<Rightarrow>
                         Inr (s1\<lparr>lists := (lists s1)(l := None),
                                 trace := trace s1 @ [List_freed l]\<rparr>))
                | _ \<Rightarrow> Inl Invalid_pointer)))"
| "on_cmd_list_sub_completion api 0 tid s a = Inl Out_of_fuel"
| "on_cmd_list_sub_completion api (Suc f) tid s a =
     (case ctxs s a of
        None \<Rightarrow> Inl Invalid_pointer
      | Some ctx \<Rightarrow>
          (case on_completion ctx of
             Some (On_cmd_list_sub_completion l) \<Rightarrow>
               (case lists s l of
                  None \<Rightarrow> Inl Invalid_pointer
                | Some lst \<Rightarrow>
                    if current_valid lst \<and> current lst = tid
                    then Inr (s\<lparr>lists := (lists s)(l \<mapsto> lst\<lparr>completed_recursive := True\<rparr>)\<rparr>)
                    else continue_cmd_list api f tid s l)
           | _ \<Rightarrow> Inl Invalid_pointer))"
| "mp_cmd_ctx_complete api 0 tid s a = Inl Out_of_fuel"
| "mp_cmd_ctx_complete api (Suc f) tid s a =
     (case ctxs s a of
        None \<Rightarrow> Inl Invalid_pointer
      | Some ctx0 \<Rightarrow>
          (let ctx = ctx0\<lparr>completed := True\<rparr>;
               s1 = s\<lparr>ctxs := (ctxs s)(a \<mapsto> ctx)\<rparr>
           in case (case on_completion ctx of
                      None \<Rightarrow> Inr s1
                    | Some cb \<Rightarrow>
                        (let s2 = s1\<lparr>trace := trace s1 @ [Completion a cb (success ctx)]\<rparr>
                         in case cb of
                              Caller_callback k \<Rightarrow> Inr s2
                            | On_cmd_list_sub_completion l \<Rightarrow>
                                on_cmd_list_sub_completion api f tid s2 a)) of
                Inl e \<Rightarrow> Inl e
              | Inr s3 \<Rightarrow>
                  Inr (s3\<lparr>abort_list := (if abort ctx \<noteq> None then removeAll a (abort_list s3)
                                          else abort_list s3),
                          ctxs := (ctxs s3)(a := None),
                          trace := trace s3 @ [Ctx_freed a]\<rparr>)))"
  by pat_completeness auto

termination
  by (relation "measure (\<lambda>x. case x of
          Inl (Inl (api, f, r)) \<Rightarrow> f
        | Inl (Inr (Inl (api, f, r))) \<Rightarrow> f
        | Inl (Inr (Inr (api, f, r))) \<Rightarrow> f
        | Inr (Inl (api, f, r)) \<Rightarrow> f
        | Inr (Inr (Inl (api, f, r))) \<Rightarrow> f
        | Inr (Inr (Inr (api, f, r))) \<Rightarrow> f)") simp_all

declare run_command.simps [simp del] call_handler.simps [simp del] cmd_list.simps [simp del]
  continue_cmd_list.simps [simp del] on_cmd_list_sub_completion.simps [simp del]
  mp_cmd_ctx_complete.simps [simp del]


subsection \<open>Vocabulary and worked examples\<close>

text \<open>
  Property expansion goes through for a command when it is not asked for or every string
  argument expands; \<open>expanded_args\<close> are the arguments the handler then sees. The
  assertion of \<^verbatim>\<open>run_command\<close> holds when no abort entry is passed for a command that
  cannot abort.
\<close>

definition expansion_ok :: "('p, 'h) pipeline_api \<Rightarrow> 'p \<Rightarrow> 'h mp_cmd \<Rightarrow> bool" where
  "expansion_ok api w cmd =
     (\<not> MP_EXPAND_PROPERTIES cmd \<or> snd (expand_args api w (cmd_args cmd)))"

definition abort_ok :: "'h mp_cmd \<Rightarrow> mp_abort_entry option \<Rightarrow> bool" where
  "abort_ok cmd ab = (can_abort (cmd_def cmd) \<or> ab = None)"


text \<open>
  A synchronous plain sub-command: not flagged asynchronous, no property expansion, run
  on the calling thread to completion by its own handler. \<open>run_subs\<close> is what a list
  of them is expected to do from the player \<open>w\<close>, the first context being allocated at
  \<open>b\<close>: each handler runs on the player the one before left, and each completion is
  reported to the list context \<open>l\<close>; it gives the player left and the events.
\<close>

definition sync_plain :: "'h mp_cmd \<Rightarrow> bool" where
  "sync_plain c =
     (\<not> MP_ASYNC_CMD c \<and> \<not> MP_EXPAND_PROPERTIES c \<and> \<not> spawn_thread (cmd_def c) \<and>
      \<not> exec_async (cmd_def c) \<and> \<not> can_abort (cmd_def c) \<and> handler (cmd_def c) \<noteq> Cmd_list)"

fun run_subs ::
  "('p, 'h) pipeline_api \<Rightarrow> nat \<Rightarrow> nat \<Rightarrow> 'p \<Rightarrow> 'h mp_cmd list \<Rightarrow> 'p \<times> 'h pipeline_event list" where
  "run_subs api l b w [] = (w, [])"
| "run_subs api l b w (c # cs) =
     (case handler (cmd_def c) of
        Cmd_list \<Rightarrow> (w, [])
      | Handler h \<Rightarrow>
          (case run_handler api h (cmd_args c) w of
             (ok, w') \<Rightarrow>
               (case run_subs api l (Suc b) w' cs of
                  (w'', evs) \<Rightarrow>
                    (w'', [Handler_run b h, Completion b (On_cmd_list_sub_completion l) ok,
                           Ctx_freed b] @ evs))))"

text \<open>
  The examples: handlers are numbers and the player is the list of the handlers that
  ran; handler 2 fails, after having run. The worker pool takes jobs until handler 0
  (quit) has run, and the string \<^verbatim>\<open>${\<close> does not expand.
\<close>

definition log_api :: "(nat list, nat) pipeline_api" where
  "log_api = \<lparr>run_handler = (\<lambda>h as w. (h \<noteq> 2, w @ [h])),
              mp_property_expand_string = (\<lambda>w str. if str = ''${'' then None else Some str),
              mp_thread_pool_queue = (\<lambda>w. 0 \<notin> set w)\<rparr>"

definition plain_def :: "nat \<Rightarrow> nat mp_cmd_def" where
  "plain_def h = \<lparr>cmd_name = ''cmd'', handler = Handler h, exec_async = False,
                  spawn_thread = False, can_abort = False, abort_on_playback_end = False\<rparr>"

definition mp_cmd_list :: "nat mp_cmd_def" where
  "mp_cmd_list = \<lparr>cmd_name = ''list'', handler = Cmd_list, exec_async = True,
                  spawn_thread = False, can_abort = False, abort_on_playback_end = False\<rparr>"

definition idle :: "(nat list, nat) MPContext" where
  "idle = \<lparr>world = [], ctxs = Map.empty, lists = Map.empty, next_addr = 0, thread_pool = [],
           outstanding_async = 0, abort_list = [], trace = []\<rparr>"

definition three :: "nat mp_cmd" where
  "three = Mp_cmd mp_cmd_list False False
     [Arg_cmds [Mp_cmd (plain_def 1) False False [], Mp_cmd (plain_def 2) False False [],
                Mp_cmd (plain_def 3) False False []]]"

definition worker_def :: "nat \<Rightarrow> nat mp_cmd_def" where
  "worker_def h = \<lparr>cmd_name = ''subprocess'', handler = Handler h, exec_async = False,
                   spawn_thread = True, can_abort = True, abort_on_playback_end = False\<rparr>"

definition after_quit :: "(nat list, nat) MPContext" where
  "after_quit = idle\<lparr>world := [0]\<rparr>"

definition subprocess :: "nat mp_cmd" where
  "subprocess = Mp_cmd (worker_def 5) False False [Arg_string ''ls'']"



chapter \<open>What the code guarantees\<close>

section \<open>Properties of the hook manager\<close>

subsection \<open>The loops, by the slot they stop at\<close>

lemma run_next_hook_handler_found:
  "n \<le> m \<Longrightarrow> m < length (hooks s) \<Longrightarrow> type (hooks s ! m) = t \<Longrightarrow>
   (\<forall>k. n \<le> k \<and> k < m \<longrightarrow> type (hooks s ! k) \<noteq> t) \<Longrightarrow>
   run_next_hook_handler api s t n = invoke_hook_handler api s m"
proof (induction "m - n" arbitrary: n)
  case 0
  then have "n = m" by simp
  with 0 show ?case by (simp add: run_next_hook_handler.simps [of api s t m])
next
  case (Suc d)
  then have lt: "n < m" by simp
  with Suc.prems have ne: "type (hooks s ! n) \<noteq> t" by simp
  have "run_next_hook_handler api s t (Suc n) = invoke_hook_handler api s m"
    using Suc.hyps(1) [of "Suc n"] Suc.hyps(2) Suc.prems lt by simp
  with lt ne Suc.prems(2) show ?case
    by (simp add: run_next_hook_handler.simps [of api s t n])
qed

lemma run_next_hook_handler_none:
  "(\<forall>k. n \<le> k \<and> k < length (hooks s) \<longrightarrow> type (hooks s ! k) \<noteq> t) \<Longrightarrow>
   run_next_hook_handler api s t n = (0, mp_wakeup_core s)"
proof (induction "length (hooks s) - n" arbitrary: n)
  case 0
  then show ?case by (simp add: run_next_hook_handler.simps [of api s t n])
next
  case (Suc d)
  then have lt: "n < length (hooks s)" by simp
  with Suc.prems have ne: "type (hooks s ! n) \<noteq> t" by simp
  have "run_next_hook_handler api s t (Suc n) = (0, mp_wakeup_core s)"
    using Suc.hyps(1) [of "Suc n"] Suc.hyps(2) Suc.prems by simp
  with lt ne show ?case
    by (simp add: run_next_hook_handler.simps [of api s t n])
qed

lemma mp_hook_continue_loop_none:
  "(\<forall>k. n \<le> k \<and> k < length (hooks s) \<longrightarrow> \<not> hook_matches c ident (hooks s ! k)) \<Longrightarrow>
   mp_hook_continue_loop api s c ident n = (MPV_ERROR_INVALID_PARAMETER, s)"
proof (induction "length (hooks s) - n" arbitrary: n)
  case 0
  then show ?case by (simp add: mp_hook_continue_loop.simps [of api s c ident n])
next
  case (Suc d)
  then have lt: "n < length (hooks s)" by simp
  with Suc.prems have ne: "\<not> hook_matches c ident (hooks s ! n)" by simp
  have "mp_hook_continue_loop api s c ident (Suc n) = (MPV_ERROR_INVALID_PARAMETER, s)"
    using Suc.hyps(1) [of "Suc n"] Suc.hyps(2) Suc.prems by simp
  with lt ne show ?case
    by (auto simp add: mp_hook_continue_loop.simps [of api s c ident n] hook_matches_def Let_def)
qed

lemma mp_hook_continue_loop_found:
  "n \<le> m \<Longrightarrow> m < length (hooks s) \<Longrightarrow> hook_matches c ident (hooks s ! m) \<Longrightarrow>
   (\<forall>k. n \<le> k \<and> k < m \<longrightarrow> \<not> hook_matches c ident (hooks s ! k)) \<Longrightarrow>
   mp_hook_continue_loop api s c ident n =
     (if \<not> active (hooks s ! m) then (MPV_ERROR_INVALID_PARAMETER, s)
      else run_next_hook_handler api
             (s\<lparr>hooks := (hooks s)[m := (hooks s ! m)\<lparr>active := False\<rparr>]\<rparr>)
             (type (hooks s ! m)) (Suc m))"
proof (induction "m - n" arbitrary: n)
  case 0
  then have "n = m" by simp
  with 0 show ?case
    by (simp add: mp_hook_continue_loop.simps [of api s c ident m] hook_matches_def Let_def)
next
  case (Suc d)
  then have lt: "n < m" by simp
  with Suc.prems have ne: "\<not> hook_matches c ident (hooks s ! n)" by simp
  have "mp_hook_continue_loop api s c ident (Suc n) =
     (if \<not> active (hooks s ! m) then (MPV_ERROR_INVALID_PARAMETER, s)
      else run_next_hook_handler api
             (s\<lparr>hooks := (hooks s)[m := (hooks s ! m)\<lparr>active := False\<rparr>]\<rparr>)
             (type (hooks s ! m)) (Suc m))"
    using Suc.hyps(1) [of "Suc n"] Suc.hyps(2) Suc.prems lt by simp
  with lt ne Suc.prems(2) show ?case
    by (auto simp add: mp_hook_continue_loop.simps [of api s c ident n] hook_matches_def Let_def)
qed

lemma mp_hook_test_completion_loop_none:
  "(\<forall>k. n \<le> k \<and> k < length (hooks s) \<longrightarrow> \<not> (active (hooks s ! k) \<and> type (hooks s ! k) = t)) \<Longrightarrow>
   mp_hook_test_completion_loop api s t n = (True, s)"
proof (induction "length (hooks s) - n" arbitrary: n)
  case 0
  then show ?case by (simp add: mp_hook_test_completion_loop.simps [of api s t n])
next
  case (Suc d)
  then have lt: "n < length (hooks s)" by simp
  with Suc.prems have ne: "\<not> (active (hooks s ! n) \<and> type (hooks s ! n) = t)" by simp
  have "mp_hook_test_completion_loop api s t (Suc n) = (True, s)"
    using Suc.hyps(1) [of "Suc n"] Suc.hyps(2) Suc.prems by simp
  with lt ne show ?case
    by (auto simp add: mp_hook_test_completion_loop.simps [of api s t n] Let_def)
qed

lemma mp_hook_test_completion_loop_found:
  "n \<le> m \<Longrightarrow> m < length (hooks s) \<Longrightarrow> active (hooks s ! m) \<Longrightarrow> type (hooks s ! m) = t \<Longrightarrow>
   (\<forall>k. n \<le> k \<and> k < m \<longrightarrow> \<not> (active (hooks s ! k) \<and> type (hooks s ! k) = t)) \<Longrightarrow>
   mp_hook_test_completion_loop api s t n =
     (if \<not> mp_client_exists api (clients s) (client (hooks s ! m))
      then (True, hook_remove s m) else (False, s))"
proof (induction "m - n" arbitrary: n)
  case 0
  then have "n = m" by simp
  with 0 show ?case
    by (simp add: mp_hook_test_completion_loop.simps [of api s t m] Let_def)
next
  case (Suc d)
  then have lt: "n < m" by simp
  with Suc.prems have ne: "\<not> (active (hooks s ! n) \<and> type (hooks s ! n) = t)" by simp
  have "mp_hook_test_completion_loop api s t (Suc n) =
     (if \<not> mp_client_exists api (clients s) (client (hooks s ! m))
      then (True, hook_remove s m) else (False, s))"
    using Suc.hyps(1) [of "Suc n"] Suc.hyps(2) Suc.prems lt by simp
  with lt ne Suc.prems(2) show ?case
    by (auto simp add: mp_hook_test_completion_loop.simps [of api s t n] Let_def)
qed

lemma invoke_hook_handler_cases:
  assumes "m < length (hooks s)" and "invoke_hook_handler api s m = (r, s1)"
  shows "(r < 0 \<and> hooks s1 = take m (hooks s) @ drop (Suc m) (hooks s) \<and>
            effects s1 = effects s @ [Invoked ((hooks s ! m)\<lparr>active := True\<rparr>) r, Wakeup]) \<or>
         (0 \<le> r \<and> hooks s1 = (hooks s)[m := (hooks s ! m)\<lparr>active := True\<rparr>] \<and>
            effects s1 = effects s @ [Invoked ((hooks s ! m)\<lparr>active := True\<rparr>) r])"
  using assms
  by (auto simp: invoke_hook_handler_def hook_remove_def mp_wakeup_core_def Let_def
           split: prod.splits if_splits)


lemma run_next_hook_handler_cases:
  "run_next_hook_handler api s t n = (r, s1) \<Longrightarrow>
   (\<exists>m. n \<le> m \<and> m < length (hooks s) \<and> type (hooks s ! m) = t \<and>
        (\<forall>k. n \<le> k \<and> k < m \<longrightarrow> type (hooks s ! k) \<noteq> t) \<and>
        invoke_hook_handler api s m = (r, s1)) \<or>
   ((\<forall>k. n \<le> k \<and> k < length (hooks s) \<longrightarrow> type (hooks s ! k) \<noteq> t) \<and>
      r = 0 \<and> s1 = mp_wakeup_core s)"
proof (induction api s t n rule: run_next_hook_handler.induct)
  case (1 api s t n)
  note unfold = run_next_hook_handler.simps [of api s t n]
  show ?case
  proof (cases "n < length (hooks s)")
    case False
    with "1.prems" unfold show ?thesis by auto
  next
    case inb: True
    show ?thesis
    proof (cases "type (hooks s ! n) = t")
      case True
      with inb "1.prems" unfold have "invoke_hook_handler api s n = (r, s1)" by simp
      with inb True show ?thesis by auto
    next
      case False
      with inb "1.prems" unfold have "run_next_hook_handler api s t (Suc n) = (r, s1)" by simp
      from "1.IH" [OF inb False this] show ?thesis
      proof
        assume "\<exists>m. Suc n \<le> m \<and> m < length (hooks s) \<and> type (hooks s ! m) = t \<and>
          (\<forall>k. Suc n \<le> k \<and> k < m \<longrightarrow> type (hooks s ! k) \<noteq> t) \<and>
          invoke_hook_handler api s m = (r, s1)"
        then obtain m where m: "Suc n \<le> m" "m < length (hooks s)" "type (hooks s ! m) = t"
          "\<forall>k. Suc n \<le> k \<and> k < m \<longrightarrow> type (hooks s ! k) \<noteq> t"
          "invoke_hook_handler api s m = (r, s1)" by blast
        have "\<forall>k. n \<le> k \<and> k < m \<longrightarrow> type (hooks s ! k) \<noteq> t"
        proof (intro allI impI)
          fix k assume "n \<le> k \<and> k < m"
          then show "type (hooks s ! k) \<noteq> t"
            using False m(4) by (cases "k = n") auto
        qed
        with m show ?thesis by (intro disjI1 exI [of _ m]) auto
      next
        assume a: "(\<forall>k. Suc n \<le> k \<and> k < length (hooks s) \<longrightarrow> type (hooks s ! k) \<noteq> t) \<and>
          r = 0 \<and> s1 = mp_wakeup_core s"
        have "\<forall>k. n \<le> k \<and> k < length (hooks s) \<longrightarrow> type (hooks s ! k) \<noteq> t"
        proof (intro allI impI)
          fix k assume "n \<le> k \<and> k < length (hooks s)"
          then show "type (hooks s ! k) \<noteq> t"
            using False a by (cases "k = n") auto
        qed
        with a show ?thesis by simp
      qed
    qed
  qed
qed

lemma run_next_hook_handler_outcome:
  assumes "run_next_hook_handler api s t 0 = (r, s1)" and "0 \<le> r"
  shows "hook_started t s1 \<or> hook_finished t s1"
  using run_next_hook_handler_cases [OF assms(1)]
proof
  assume "\<exists>m. 0 \<le> m \<and> m < length (hooks s) \<and> type (hooks s ! m) = t \<and>
        (\<forall>k. 0 \<le> k \<and> k < m \<longrightarrow> type (hooks s ! k) \<noteq> t) \<and>
        invoke_hook_handler api s m = (r, s1)"
  then obtain m where m: "m < length (hooks s)" "type (hooks s ! m) = t"
     "\<forall>k<m. type (hooks s ! k) \<noteq> t" "invoke_hook_handler api s m = (r, s1)" by auto
  from invoke_hook_handler_cases [OF m(1) m(4)] assms(2)
  have h: "hooks s1 = (hooks s)[m := (hooks s ! m)\<lparr>active := True\<rparr>]"
    and e: "effects s1 = effects s @ [Invoked ((hooks s ! m)\<lparr>active := True\<rparr>) r]" by auto
  have "hook_started t s1"
    unfolding hook_started_def
    using m h e assms(2) by (intro exI [of _ m] exI [of _ r]) (auto simp: nth_list_update)
  then show ?thesis ..
next
  assume a: "(\<forall>k. 0 \<le> k \<and> k < length (hooks s) \<longrightarrow> type (hooks s ! k) \<noteq> t) \<and>
      r = 0 \<and> s1 = mp_wakeup_core s"
  then have "hook_finished t s1"
    by (auto simp: hook_finished_def mp_wakeup_core_def in_set_conv_nth)
  then show ?thesis ..
qed

lemma mp_hook_start_outcome:
  "hook_started t (mp_hook_start api s t) \<or> hook_finished t (mp_hook_start api s t)"
proof (induction api s t rule: mp_hook_start.induct)
  case (1 api s t)
  obtain r s1 where rs: "run_next_hook_handler api s t 0 = (r, s1)" by (cases "run_next_hook_handler api s t 0")
  show ?case
  proof (cases "r < 0")
    case True
    with rs have "mp_hook_start api s t = mp_hook_start api s1 t"
      by (simp add: mp_hook_start.simps [of api s t])
    with "1.IH" [OF rs [symmetric] True] show ?thesis by simp
  next
    case False
    with rs have "mp_hook_start api s t = s1"
      by (simp add: mp_hook_start.simps [of api s t])
    with run_next_hook_handler_outcome [OF rs] False show ?thesis by simp
  qed
qed

lemma two_hooks_eq:
  "two_hooks live = \<lparr>hooks = [on_load_A, on_load_B], hook_seq = 2, clients = live, effects = []\<rparr>"
  by (simp add: two_hooks_def mp_hook_add_def qsort_def compare_hook_def on_load_A_def
                on_load_B_def)

lemma start_two_hooks:
  "mp_hook_start registry_api (two_hooks [''A'', ''B'']) ''on_load'' = A_running [''A'', ''B'']"
  by (subst mp_hook_start.simps, subst run_next_hook_handler.simps)
     (simp add: two_hooks_eq invoke_hook_handler_def registry_api_def on_load_A_def
        on_load_B_def A_running_def Let_def)

subsection \<open>Acknowledging a handler\<close>

text \<open>
  C10. \<^verbatim>\<open>mp_hook_continue(client, id)\<close>: when no registered handler has that client name
  and that sequence number, or the handler that has them is not active, the call returns
  \<^verbatim>\<open>MPV_ERROR_INVALID_PARAMETER\<close> and the state, so every registration, is unchanged.
  Otherwise the handler's active flag is cleared and the next handler of the same type,
  the first one after it in the array, is invoked; when there is none the core is woken
  up and the result is 0.
\<close>

theorem mp_hook_continue_result:
  "((\<forall>h \<in> set (hooks s). \<not> hook_matches c ident h) \<longrightarrow>
      mp_hook_continue api s c ident = (MPV_ERROR_INVALID_PARAMETER, s)) \<and>
   (\<forall>m. m < length (hooks s) \<and> hook_matches c ident (hooks s ! m) \<and>
        (\<forall>k<m. \<not> hook_matches c ident (hooks s ! k)) \<longrightarrow>
      (\<not> active (hooks s ! m) \<longrightarrow>
         mp_hook_continue api s c ident = (MPV_ERROR_INVALID_PARAMETER, s)) \<and>
      (active (hooks s ! m) \<longrightarrow>
         (\<forall>j. m < j \<and> j < length (hooks s) \<and> type (hooks s ! j) = type (hooks s ! m) \<and>
              (\<forall>k. m < k \<and> k < j \<longrightarrow> type (hooks s ! k) \<noteq> type (hooks s ! m)) \<longrightarrow>
            mp_hook_continue api s c ident =
              invoke_hook_handler api
                (s\<lparr>hooks := (hooks s)[m := (hooks s ! m)\<lparr>active := False\<rparr>]\<rparr>) j) \<and>
         ((\<forall>k. m < k \<and> k < length (hooks s) \<longrightarrow> type (hooks s ! k) \<noteq> type (hooks s ! m)) \<longrightarrow>
            mp_hook_continue api s c ident =
              (0, mp_wakeup_core
                    (s\<lparr>hooks := (hooks s)[m := (hooks s ! m)\<lparr>active := False\<rparr>]\<rparr>)))))"
proof (intro conjI allI impI)
  assume "\<forall>h \<in> set (hooks s). \<not> hook_matches c ident h"
  then have "\<forall>k. 0 \<le> k \<and> k < length (hooks s) \<longrightarrow> \<not> hook_matches c ident (hooks s ! k)"
    by simp
  then show "mp_hook_continue api s c ident = (MPV_ERROR_INVALID_PARAMETER, s)"
    unfolding mp_hook_continue_def by (rule mp_hook_continue_loop_none)
next
  fix m
  assume m: "m < length (hooks s) \<and> hook_matches c ident (hooks s ! m) \<and>
        (\<forall>k<m. \<not> hook_matches c ident (hooks s ! k))"
  let ?s1 = "s\<lparr>hooks := (hooks s)[m := (hooks s ! m)\<lparr>active := False\<rparr>]\<rparr>"
  let ?t = "type (hooks s ! m)"
  have loop: "mp_hook_continue api s c ident =
     (if \<not> active (hooks s ! m) then (MPV_ERROR_INVALID_PARAMETER, s)
      else run_next_hook_handler api ?s1 ?t (Suc m))"
    unfolding mp_hook_continue_def
    using m by (intro mp_hook_continue_loop_found) auto
  {
    assume "\<not> active (hooks s ! m)"
    with loop show "mp_hook_continue api s c ident = (MPV_ERROR_INVALID_PARAMETER, s)"
      by simp
  }
  {
    fix j
    assume act: "active (hooks s ! m)"
      and j: "m < j \<and> j < length (hooks s) \<and> type (hooks s ! j) = ?t \<and>
              (\<forall>k. m < k \<and> k < j \<longrightarrow> type (hooks s ! k) \<noteq> ?t)"
    have "run_next_hook_handler api ?s1 ?t (Suc m) = invoke_hook_handler api ?s1 j"
      using j by (intro run_next_hook_handler_found) (auto simp: nth_list_update)
    with loop act show "mp_hook_continue api s c ident = invoke_hook_handler api ?s1 j"
      by simp
  }
  {
    assume act: "active (hooks s ! m)"
      and none: "\<forall>k. m < k \<and> k < length (hooks s) \<longrightarrow> type (hooks s ! k) \<noteq> ?t"
    have "run_next_hook_handler api ?s1 ?t (Suc m) = (0, mp_wakeup_core ?s1)"
      using none by (intro run_next_hook_handler_none) (auto simp: nth_list_update)
    with loop act show "mp_hook_continue api s c ident = (0, mp_wakeup_core ?s1)"
      by simp
  }
qed

theorem mp_hook_continue_result_witness:
  "mp_hook_continue registry_api (A_running [''A'', ''B'']) ''C'' 9 =
     (MPV_ERROR_INVALID_PARAMETER, A_running [''A'', ''B'']) \<and>
   mp_hook_continue registry_api (A_running [''A'', ''B'']) ''B'' 2 =
     (MPV_ERROR_INVALID_PARAMETER, A_running [''A'', ''B'']) \<and>
   mp_hook_continue registry_api (A_running [''A'', ''B'']) ''A'' 1 =
     (0, \<lparr>hooks = [on_load_A, on_load_B\<lparr>active := True\<rparr>], hook_seq = 2,
          clients = [''A'', ''B''],
          effects = [Invoked (on_load_A\<lparr>active := True\<rparr>) 0,
                     Invoked (on_load_B\<lparr>active := True\<rparr>) 0]\<rparr>)"
proof -
  let ?s = "A_running [''A'', ''B'']"
  have hs: "hooks ?s = [on_load_A\<lparr>active := True\<rparr>, on_load_B]"
    by (simp add: A_running_def)
  have none: "\<forall>h \<in> set (hooks ?s). \<not> hook_matches ''C'' 9 h"
    by (simp add: hs hook_matches_def on_load_A_def on_load_B_def)
  have c1: "mp_hook_continue registry_api ?s ''C'' 9 = (MPV_ERROR_INVALID_PARAMETER, ?s)"
    by (rule mp_hook_continue_result [THEN conjunct1, THEN mp, OF none])
  have mB: "1 < length (hooks ?s) \<and> hook_matches ''B'' 2 (hooks ?s ! 1) \<and>
        (\<forall>k<1. \<not> hook_matches ''B'' 2 (hooks ?s ! k))"
    by (simp add: hs hook_matches_def on_load_A_def on_load_B_def)
  have iB: "\<not> active (hooks ?s ! 1)"
    by (simp add: hs on_load_B_def)
  have c2: "mp_hook_continue registry_api ?s ''B'' 2 = (MPV_ERROR_INVALID_PARAMETER, ?s)"
    by (rule mp_hook_continue_result [THEN conjunct2, THEN spec, THEN mp, OF mB,
          THEN conjunct1, THEN mp, OF iB])
  have mA: "0 < length (hooks ?s) \<and> hook_matches ''A'' 1 (hooks ?s ! 0) \<and>
        (\<forall>k<0. \<not> hook_matches ''A'' 1 (hooks ?s ! k))"
    by (simp add: hs hook_matches_def on_load_A_def on_load_B_def)
  have aA: "active (hooks ?s ! 0)"
    by (simp add: hs on_load_A_def)
  have jB: "0 < (1::nat) \<and> 1 < length (hooks ?s) \<and> type (hooks ?s ! 1) = type (hooks ?s ! 0) \<and>
              (\<forall>k. 0 < k \<and> k < 1 \<longrightarrow> type (hooks ?s ! k) \<noteq> type (hooks ?s ! 0))"
    by (auto simp add: hs on_load_A_def on_load_B_def)
  have "mp_hook_continue registry_api ?s ''A'' 1 =
      invoke_hook_handler registry_api
        (?s\<lparr>hooks := (hooks ?s)[0 := (hooks ?s ! 0)\<lparr>active := False\<rparr>]\<rparr>) 1"
    by (rule mp_hook_continue_result [THEN conjunct2, THEN spec, THEN mp, OF mA,
          THEN conjunct2, THEN mp, OF aA, THEN conjunct1, THEN spec, THEN mp, OF jB])
  also have "\<dots> =
     (0, \<lparr>hooks = [on_load_A, on_load_B\<lparr>active := True\<rparr>], hook_seq = 2,
          clients = [''A'', ''B''],
          effects = [Invoked (on_load_A\<lparr>active := True\<rparr>) 0,
                     Invoked (on_load_B\<lparr>active := True\<rparr>) 0]\<rparr>)"
    by (simp add: A_running_def invoke_hook_handler_def registry_api_def on_load_A_def
          on_load_B_def Let_def)
  finally have c3: "mp_hook_continue registry_api ?s ''A'' 1 =
     (0, \<lparr>hooks = [on_load_A, on_load_B\<lparr>active := True\<rparr>], hook_seq = 2,
          clients = [''A'', ''B''],
          effects = [Invoked (on_load_A\<lparr>active := True\<rparr>) 0,
                     Invoked (on_load_B\<lparr>active := True\<rparr>) 0]\<rparr>)" .
  from c1 c2 c3 show ?thesis by (intro conjI)
qed

subsection \<open>A client that disappears while its handler runs\<close>

text \<open>
  C6. When the client of the active handler of a type no longer exists, the completion
  poll \<^verbatim>\<open>mp_hook_test_completion\<close> for that type removes that handler and reports
  completion; when it was the only handler of the type, none of the type is left.
\<close>

theorem mp_hook_test_completion_dead_client:
  assumes "m < length (hooks s)" and "active (hooks s ! m)" and "type (hooks s ! m) = t"
    and "\<forall>k<m. \<not> (active (hooks s ! k) \<and> type (hooks s ! k) = t)"
    and "\<not> mp_client_exists api (clients s) (client (hooks s ! m))"
  shows "mp_hook_test_completion api s t =
           (True, s\<lparr>hooks := take m (hooks s) @ drop (Suc m) (hooks s)\<rparr>) \<and>
         ((\<forall>k<length (hooks s). k \<noteq> m \<longrightarrow> type (hooks s ! k) \<noteq> t) \<longrightarrow>
          (\<forall>h \<in> set (take m (hooks s) @ drop (Suc m) (hooks s)). type h \<noteq> t))"
proof
  have "mp_hook_test_completion_loop api s t 0 =
     (if \<not> mp_client_exists api (clients s) (client (hooks s ! m))
      then (True, hook_remove s m) else (False, s))"
    using assms by (intro mp_hook_test_completion_loop_found) auto
  with assms(5) show "mp_hook_test_completion api s t =
           (True, s\<lparr>hooks := take m (hooks s) @ drop (Suc m) (hooks s)\<rparr>)"
    by (simp add: mp_hook_test_completion_def hook_remove_def)
next
  show "(\<forall>k<length (hooks s). k \<noteq> m \<longrightarrow> type (hooks s ! k) \<noteq> t) \<longrightarrow>
          (\<forall>h \<in> set (take m (hooks s) @ drop (Suc m) (hooks s)). type h \<noteq> t)"
  proof (intro impI ballI)
    fix h
    assume only: "\<forall>k<length (hooks s). k \<noteq> m \<longrightarrow> type (hooks s ! k) \<noteq> t"
      and "h \<in> set (take m (hooks s) @ drop (Suc m) (hooks s))"
    then consider "h \<in> set (take m (hooks s))" | "h \<in> set (drop (Suc m) (hooks s))"
      by auto
    then show "type h \<noteq> t"
    proof cases
      case 1
      then obtain k where "k < m" "k < length (hooks s)" "h = hooks s ! k"
        by (auto simp: in_set_conv_nth)
      with only show ?thesis by auto
    next
      case 2
      then obtain k where "k < length (hooks s) - Suc m" "h = hooks s ! (Suc m + k)"
        by (auto simp: in_set_conv_nth)
      with only show ?thesis by auto
    qed
  qed
qed

theorem mp_hook_test_completion_dead_client_witness:
  "mp_hook_test_completion registry_api (A_running [''B'']) ''on_load'' =
     (True, \<lparr>hooks = [on_load_B], hook_seq = 2, clients = [''B''],
             effects = [Invoked (on_load_A\<lparr>active := True\<rparr>) 0]\<rparr>)"
proof -
  let ?s = "A_running [''B'']"
  have hs: "hooks ?s = [on_load_A\<lparr>active := True\<rparr>, on_load_B]"
    by (simp add: A_running_def)
  have 1: "0 < length (hooks ?s)" by (simp add: hs)
  have 2: "active (hooks ?s ! 0)" by (simp add: hs)
  have 3: "type (hooks ?s ! 0) = ''on_load''" by (simp add: hs on_load_A_def)
  have 4: "\<forall>k<0. \<not> (active (hooks ?s ! k) \<and> type (hooks ?s ! k) = ''on_load'')" by simp
  have 5: "\<not> mp_client_exists registry_api (clients ?s) (client (hooks ?s ! 0))"
    by (simp add: hs A_running_def registry_api_def on_load_A_def)
  have "mp_hook_test_completion registry_api ?s ''on_load'' =
           (True, ?s\<lparr>hooks := take 0 (hooks ?s) @ drop (Suc 0) (hooks ?s)\<rparr>)"
    by (rule mp_hook_test_completion_dead_client [OF 1 2 3 4 5, THEN conjunct1])
  also have "\<dots> = (True, \<lparr>hooks = [on_load_B], hook_seq = 2, clients = [''B''],
             effects = [Invoked (on_load_A\<lparr>active := True\<rparr>) 0]\<rparr>)"
    by (simp add: A_running_def)
  finally show ?thesis .
qed

subsection \<open>Starting a hook\<close>

text \<open>
  C5. \<^verbatim>\<open>mp_hook_start\<close>: when sending the event to the first handler of the type fails,
  that handler is removed and starting is tried again on what is left; and the state
  \<^verbatim>\<open>mp_hook_start\<close> returns is either started (a handler of the type is active and its
  event was delivered) or finished (no handler of the type is left and the wakeup that
  signals completion was the last effect).
\<close>

theorem mp_hook_start_activates_or_finishes:
  "(\<forall>r s1. run_next_hook_handler api s t 0 = (r, s1) \<and> r < 0 \<longrightarrow>
      (\<exists>m<length (hooks s). type (hooks s ! m) = t \<and> (\<forall>k<m. type (hooks s ! k) \<noteq> t) \<and>
           hooks s1 = take m (hooks s) @ drop (Suc m) (hooks s)) \<and>
      mp_hook_start api s t = mp_hook_start api s1 t) \<and>
   (hook_started t (mp_hook_start api s t) \<or> hook_finished t (mp_hook_start api s t))"
proof (intro conjI allI impI)
  fix r s1
  assume a: "run_next_hook_handler api s t 0 = (r, s1) \<and> r < 0"
  then show "mp_hook_start api s t = mp_hook_start api s1 t"
    by (simp add: mp_hook_start.simps [of api s t])
  from a run_next_hook_handler_cases [of api s t 0 r s1]
  obtain m where m: "m < length (hooks s)" "type (hooks s ! m) = t"
     "\<forall>k<m. type (hooks s ! k) \<noteq> t" "invoke_hook_handler api s m = (r, s1)" by auto
  from invoke_hook_handler_cases [OF m(1) m(4)] a
  have "hooks s1 = take m (hooks s) @ drop (Suc m) (hooks s)" by auto
  with m show "\<exists>m<length (hooks s). type (hooks s ! m) = t \<and> (\<forall>k<m. type (hooks s ! k) \<noteq> t) \<and>
           hooks s1 = take m (hooks s) @ drop (Suc m) (hooks s)" by blast
next
  show "hook_started t (mp_hook_start api s t) \<or> hook_finished t (mp_hook_start api s t)"
    by (rule mp_hook_start_outcome)
qed

theorem mp_hook_start_activates_or_finishes_witness:
  "run_next_hook_handler registry_api (two_hooks [''B'']) ''on_load'' 0 = (- 1, A_failed [''B'']) \<and>
   mp_hook_start registry_api (two_hooks [''B'']) ''on_load'' =
     mp_hook_start registry_api (A_failed [''B'']) ''on_load'' \<and>
   mp_hook_start registry_api (A_failed [''B'']) ''on_load'' = B_running [''B''] \<and>
   (hook_started ''on_load'' (mp_hook_start registry_api (two_hooks [''B'']) ''on_load'') \<or>
    hook_finished ''on_load'' (mp_hook_start registry_api (two_hooks [''B'']) ''on_load''))"
proof -
  have r1: "run_next_hook_handler registry_api (two_hooks [''B'']) ''on_load'' 0 =
      (- 1, A_failed [''B''])"
    by (subst run_next_hook_handler.simps)
       (simp add: two_hooks_eq invoke_hook_handler_def registry_api_def on_load_A_def
          on_load_B_def A_failed_def hook_remove_def mp_wakeup_core_def Let_def)
  then have h: "run_next_hook_handler registry_api (two_hooks [''B'']) ''on_load'' 0 =
      (- 1, A_failed [''B'']) \<and> (- 1 :: int) < 0" by simp
  note T = mp_hook_start_activates_or_finishes [of registry_api "two_hooks [''B'']" "''on_load''"]
  have r2: "mp_hook_start registry_api (two_hooks [''B'']) ''on_load'' =
     mp_hook_start registry_api (A_failed [''B'']) ''on_load''"
    by (rule T [THEN conjunct1, THEN spec, THEN spec, THEN mp, OF h, THEN conjunct2])
  have r3: "mp_hook_start registry_api (A_failed [''B'']) ''on_load'' = B_running [''B'']"
    by (subst mp_hook_start.simps, subst run_next_hook_handler.simps)
       (simp add: invoke_hook_handler_def registry_api_def on_load_A_def
          on_load_B_def A_failed_def B_running_def Let_def)
  from r1 r2 r3 T [THEN conjunct2] show ?thesis by (intro conjI)
qed

subsection \<open>One handler at a time, in ascending order\<close>



















lemma hook_before_active [simp]:
  "hook_before (h1\<lparr>active := b\<rparr>) h2 = hook_before h1 h2"
  "hook_before h1 (h2\<lparr>active := b\<rparr>) = hook_before h1 h2"
  by (simp_all add: hook_before_def)















lemma invoked_append: "invoked (xs @ ys) = invoked xs @ invoked ys"
  by (induction xs rule: invoked.induct) simp_all









section \<open>Properties of the property name match\<close>

lemma prefix_iff_take: "prefix p a \<longleftrightarrow> take (length p) a = p"
  by (metis append_eq_conv_conj prefix_def take_is_prefix)

subsection \<open>The comparisons, on strings without NUL\<close>

lemma of_char_nonzero: "c \<noteq> CHR 0x00 \<Longrightarrow> int (of_char c) \<noteq> 0"
proof -
  assume "c \<noteq> CHR 0x00"
  then have "(of_char c :: nat) \<noteq> of_char (CHR 0x00)" by (simp only: of_char_eq_iff not_False_eq_True)
  then show ?thesis by simp
qed

lemma strncmp_eq_0:
  "CHR 0x00 \<notin> set a \<Longrightarrow> CHR 0x00 \<notin> set b \<Longrightarrow>
   strncmp a b n = 0 \<longleftrightarrow>
     (if n \<le> length a \<and> n \<le> length b then take n a = take n b else a = b)"
proof (induction a b n rule: strncmp.induct)
  case (3 y ys n)
  then have "int (of_char y) \<noteq> 0" by (intro of_char_nonzero) auto
  then show ?case by simp
next
  case (4 x xs n)
  then have "int (of_char x) \<noteq> 0" by (intro of_char_nonzero) auto
  then show ?case by simp
next
  case (5 x xs y ys n)
  then show ?case by auto
qed simp_all

lemma strcmp_eq_0:
  "CHR 0x00 \<notin> set a \<Longrightarrow> CHR 0x00 \<notin> set b \<Longrightarrow> strcmp a b = 0 \<longleftrightarrow> a = b"
proof (induction a b rule: strcmp.induct)
  case (2 y ys)
  then have "int (of_char y) \<noteq> 0" by (intro of_char_nonzero) auto
  then show ?case by simp
next
  case (3 x xs)
  then have "int (of_char x) \<noteq> 0" by (intro of_char_nonzero) auto
  then show ?case by simp
next
  case (4 x xs y ys)
  then show ?case by auto
qed simp_all

lemma strncmp_options:
  assumes "CHR 0x00 \<notin> set a"
  shows "strncmp a ''options/'' 8 = 0 \<longleftrightarrow> prefix ''options/'' a"
proof -
  have len: "length ''options/'' = 8" by simp
  have "strncmp a ''options/'' 8 = 0 \<longleftrightarrow>
     (if 8 \<le> length a \<and> (8::nat) \<le> length ''options/'' then take 8 a = take 8 ''options/''
      else a = ''options/'')"
    using assms by (intro strncmp_eq_0) auto
  also have "\<dots> \<longleftrightarrow> prefix ''options/'' a"
  proof (cases "8 \<le> length a")
    case True
    have "prefix ''options/'' a \<longleftrightarrow> take 8 a = ''options/''"
      using prefix_iff_take [of "''options/''" a] by (simp only: len)
    with True show ?thesis by simp
  next
    case False
    then have "\<not> prefix ''options/'' a"
      using prefix_length_le [of "''options/''" a] by auto
    moreover from False have "a \<noteq> ''options/''" by auto
    ultimately show ?thesis using False by simp
  qed
  finally show ?thesis .
qed

lemma take_min_prefix:
  "take (min (length x) (length y)) x = take (min (length x) (length y)) y \<longleftrightarrow>
   prefix x y \<or> prefix y x"
  by (metis append_eq_conv_conj min.cobounded1 min_def prefix_def take_all_iff)

lemma name_head_split: "p = name_head p @ dropWhile (\<lambda>c. c \<noteq> CHR ''/'') p"
  by (simp add: name_head_def)

lemma prefix_len_slash: "CHR ''/'' \<in> set p \<Longrightarrow> prefix_len p = length (name_head p)"
  by (simp add: prefix_len_def name_head_def)

lemma prefix_len_noslash:
  "CHR ''/'' \<notin> set p \<Longrightarrow> prefix_len p = length p + 1 \<and> name_head p = p"
  by (auto simp add: prefix_len_def name_head_def)

lemma take_name_head: "n \<le> length (name_head p) \<Longrightarrow> take n p = take n (name_head p)"
  by (metis name_head_split take_append diff_is_0_eq take_0 append_Nil2)

lemma name_head_length: "length (name_head p) \<le> length p"
  by (simp add: name_head_def length_takeWhile_le)

lemma heads_compare:
  assumes "CHR 0x00 \<notin> set a" and "CHR 0x00 \<notin> set b"
  shows "strncmp a b (min (prefix_len a) (prefix_len b)) = 0 \<longleftrightarrow>
     name_head a = name_head b \<or>
     (CHR ''/'' \<in> set a \<and> prefix (name_head a) (name_head b)) \<or>
     (CHR ''/'' \<in> set b \<and> prefix (name_head b) (name_head a))"
proof -
  let ?n = "min (prefix_len a) (prefix_len b)"
  note cmp = strncmp_eq_0 [OF assms, of ?n]
  consider (both) "CHR ''/'' \<in> set a" "CHR ''/'' \<in> set b"
    | (a_only) "CHR ''/'' \<in> set a" "CHR ''/'' \<notin> set b"
    | (b_only) "CHR ''/'' \<notin> set a" "CHR ''/'' \<in> set b"
    | (neither) "CHR ''/'' \<notin> set a" "CHR ''/'' \<notin> set b" by blast
  then show ?thesis
  proof cases
    case both
    then have n: "?n = min (length (name_head a)) (length (name_head b))"
      by (simp add: prefix_len_slash)
    have "?n \<le> length a" "?n \<le> length b"
      using name_head_length [of a] name_head_length [of b] n by auto
    with cmp have "strncmp a b ?n = 0 \<longleftrightarrow> take ?n a = take ?n b" by simp
    also have "\<dots> \<longleftrightarrow> take ?n (name_head a) = take ?n (name_head b)"
      using take_name_head [of ?n a] take_name_head [of ?n b] n by simp
    also have "\<dots> \<longleftrightarrow> prefix (name_head a) (name_head b) \<or> prefix (name_head b) (name_head a)"
      unfolding n by (rule take_min_prefix)
    finally show ?thesis using both by auto
  next
    case a_only
    then have la: "prefix_len a = length (name_head a)"
      and lb: "prefix_len b = length b + 1" and hb: "name_head b = b"
      by (simp_all add: prefix_len_slash prefix_len_noslash)
    show ?thesis
    proof (cases "length (name_head a) \<le> length b")
      case True
      then have n: "?n = length (name_head a)" using la lb by simp
      have "?n \<le> length a" using name_head_length [of a] n by simp
      with True n cmp have "strncmp a b ?n = 0 \<longleftrightarrow> take ?n a = take ?n b" by simp
      also have "\<dots> \<longleftrightarrow> take (length (name_head a)) b = name_head a"
        using take_name_head [of ?n a] n by auto
      also have "\<dots> \<longleftrightarrow> prefix (name_head a) b"
        by (simp add: prefix_iff_take)
      finally show ?thesis using a_only hb by auto
    next
      case False
      then have n: "?n = length b + 1" using la lb by simp
      from False have "\<not> prefix (name_head a) b"
        using prefix_length_le [of "name_head a" b] by auto
      moreover from False have "name_head a \<noteq> b" by auto
      moreover have "a \<noteq> b" using a_only by auto
      moreover have "strncmp a b ?n = 0 \<longleftrightarrow> a = b" using cmp n by simp
      ultimately show ?thesis using a_only hb by auto
    qed
  next
    case b_only
    then have lb: "prefix_len b = length (name_head b)"
      and la: "prefix_len a = length a + 1" and ha: "name_head a = a"
      by (simp_all add: prefix_len_slash prefix_len_noslash)
    show ?thesis
    proof (cases "length (name_head b) \<le> length a")
      case True
      then have n: "?n = length (name_head b)" using la lb by simp
      have "?n \<le> length b" using name_head_length [of b] n by simp
      with True n cmp have "strncmp a b ?n = 0 \<longleftrightarrow> take ?n a = take ?n b" by simp
      also have "\<dots> \<longleftrightarrow> take (length (name_head b)) a = name_head b"
        using take_name_head [of ?n b] n by auto
      also have "\<dots> \<longleftrightarrow> prefix (name_head b) a"
        by (simp add: prefix_iff_take)
      finally show ?thesis using b_only ha by auto
    next
      case False
      then have n: "?n = length a + 1" using la lb by simp
      from False have "\<not> prefix (name_head b) a"
        using prefix_length_le [of "name_head b" a] by auto
      moreover from False have "a \<noteq> name_head b" by auto
      moreover have "a \<noteq> b" using b_only by auto
      moreover have "strncmp a b ?n = 0 \<longleftrightarrow> a = b" using cmp n by simp
      ultimately show ?thesis using b_only ha by auto
    qed
  next
    case neither
    then have la: "prefix_len a = length a + 1" and ha: "name_head a = a"
      and lb: "prefix_len b = length b + 1" and hb: "name_head b = b"
      by (simp_all add: prefix_len_noslash)
    have "strncmp a b ?n = 0 \<longleftrightarrow> a = b"
    proof (cases "length a = length b")
      case True
      with cmp la lb show ?thesis by simp
    next
      case False
      with cmp la lb show ?thesis by auto
    qed
    with neither ha hb show ?thesis by simp
  qed
qed

subsection \<open>What match_property decides\<close>

text \<open>
  C7, as the code has it. For names \<open>a\<close> and \<open>b\<close> (C strings, so without NUL),
  \<^verbatim>\<open>match_property(a, b)\<close> is true exactly when \<open>a\<close> is \<^verbatim>\<open>"*"\<close>, or, after a leading
  \<^verbatim>\<open>options/\<close> is dropped from each name that has one, the parts before the first
  \<^verbatim>\<open>'/'\<close> are equal, or one of the two names contains a \<^verbatim>\<open>'/'\<close> and its part before
  it is a prefix of the other name's part. A name without \<^verbatim>\<open>'/'\<close> is never the shorter
  side of a match, but it does match a name with a \<^verbatim>\<open>'/'\<close> whose first part is a proper
  prefix of it. The entry \<^verbatim>\<open>"*"\<close> matches every name.
\<close>

theorem match_property_heads:
  assumes "CHR 0x00 \<notin> set a" and "CHR 0x00 \<notin> set b"
  shows "match_property a b \<longleftrightarrow>
     a = ''*'' \<or>
     name_head (strip_options a) = name_head (strip_options b) \<or>
     (CHR ''/'' \<in> set (strip_options a) \<and>
        prefix (name_head (strip_options a)) (name_head (strip_options b))) \<or>
     (CHR ''/'' \<in> set (strip_options b) \<and>
        prefix (name_head (strip_options b)) (name_head (strip_options a)))"
proof -
  have star: "strcmp a ''*'' = 0 \<longleftrightarrow> a = ''*''"
    using assms(1) by (intro strcmp_eq_0) auto
  have sa: "(if strncmp a ''options/'' 8 = 0 then drop 8 a else a) = strip_options a"
    using strncmp_options [OF assms(1)] by (simp add: strip_options_def)
  have sb: "(if strncmp b ''options/'' 8 = 0 then drop 8 b else b) = strip_options b"
    using strncmp_options [OF assms(2)] by (simp add: strip_options_def)
  have za: "CHR 0x00 \<notin> set (strip_options a)"
    using assms(1) by (auto simp: strip_options_def dest: in_set_dropD)
  have zb: "CHR 0x00 \<notin> set (strip_options b)"
    using assms(2) by (auto simp: strip_options_def dest: in_set_dropD)
  show ?thesis
    unfolding match_property_def Let_def sa sb star
    using heads_compare [OF za zb] by auto
qed

theorem match_property_heads_witness:
  "match_property ''options/playlist/count'' ''playlist-pos'' \<and>
   \<not> match_property ''playlist'' ''playlist-pos'' \<and>
   match_property ''*'' ''playlist-pos''"
proof -
  have z: "CHR 0x00 \<notin> set ''options/playlist/count''" "CHR 0x00 \<notin> set ''playlist-pos''"
    "CHR 0x00 \<notin> set ''playlist''" "CHR 0x00 \<notin> set ''*''"
    by simp_all
  have 1: "match_property ''options/playlist/count'' ''playlist-pos''"
    unfolding match_property_heads [OF z(1) z(2)]
    by (simp add: name_head_def strip_options_def)
  have 2: "\<not> match_property ''playlist'' ''playlist-pos''"
    unfolding match_property_heads [OF z(3) z(2)]
    by (simp add: name_head_def strip_options_def)
  have 3: "match_property ''*'' ''playlist-pos''"
    unfolding match_property_heads [OF z(4) z(2)] by simp
  from 1 2 3 show ?thesis by (intro conjI)
qed

text \<open>
  The claim as it was stated asks for equal first parts. The table entry
  \<^verbatim>\<open>playlist/count\<close> and the property \<^verbatim>\<open>playlist-pos\<close> have the first parts
  \<^verbatim>\<open>playlist\<close> and \<^verbatim>\<open>playlist-pos\<close>, and they match.
\<close>

theorem match_property_heads_counterexample:
  "\<not> (match_property ''playlist/count'' ''playlist-pos'' \<longleftrightarrow>
        ''playlist/count'' = ''*'' \<or>
        name_head (strip_options ''playlist/count'') = name_head (strip_options ''playlist-pos''))"
  by (simp add: match_property_def prefix_len_def name_head_def strip_options_def Let_def
        eval_nat_numeral)

section \<open>Properties of property access\<close>

subsection \<open>Notifications of a successful set\<close>

lemma pause_api_keeps_changes: "api_keeps_changes pause_api"
  by (auto simp: api_keeps_changes_def pause_api_def pause_property_def
           split: m_property_action.splits prod.splits)

lemma mp_property_do_silent_changes:
  assumes "api_keeps_changes api"
    and "mp_property_do_silent api name action s = (r, out, s')"
  shows "prefix (property_changes s) (property_changes s') \<and>
         (r = M_PROPERTY_OK \<and> is_property_set action \<longrightarrow>
            new_changes s s' \<noteq> [] \<and> last (new_changes s s') = name)"
proof -
  let ?s1 = "s\<lparr>silence_option_deprecations := silence_option_deprecations s + 1\<rparr>"
  obtain r0 out0 s2 where d: "m_property_do api name action ?s1 = (r0, out0, s2)"
    by (cases "m_property_do api name action ?s1") auto
  from assms(1) have "prefix (property_changes ?s1)
           (property_changes (snd (snd (m_property_do api name action ?s1))))"
    unfolding api_keeps_changes_def by blast
  with d have p: "prefix (property_changes s) (property_changes s2)" by simp
  then obtain zs where zs: "property_changes s2 = property_changes s @ zs"
    by (auto simp: prefix_def)
  show ?thesis
  proof (cases "r0 = M_PROPERTY_OK \<and> is_property_set action")
    case True
    with assms(2) d have "r = r0" and "property_changes s' = property_changes s2 @ [name]"
      by (auto simp: mp_property_do_silent_def mp_notify_property_def Let_def)
    with zs True show ?thesis by (simp add: new_changes_def)
  next
    case False
    with assms(2) d have "r = r0" and "property_changes s' = property_changes s2"
      by (auto simp: mp_property_do_silent_def mp_notify_property_def Let_def split: if_splits)
    with p False show ?thesis by auto
  qed
qed

lemma mp_property_do_changes:
  assumes "api_keeps_changes api"
    and "mp_property_do api name action s = (r, out, s')"
  shows "prefix (property_changes s) (property_changes s') \<and>
         (r = M_PROPERTY_OK \<and> is_property_set action \<longrightarrow>
            new_changes s s' \<noteq> [] \<and> last (new_changes s s') = name)"
proof -
  obtain r0 out0 s1 where d: "mp_property_do_silent api name action s = (r0, out0, s1)"
    by (cases "mp_property_do_silent api name action s") auto
  with assms(2) have "r = r0" and "property_changes s' = property_changes s1"
    by (auto simp: mp_property_do_def Let_def split: if_splits)
  with mp_property_do_silent_changes [OF assms(1) d] show ?thesis
    by (simp add: new_changes_def)
qed

lemma in_new_changes:
  assumes "prefix (property_changes s) xs" and "prefix (xs @ [x]) (property_changes s')"
  shows "x \<in> set (new_changes s s')"
proof -
  from assms obtain ys zs where "xs = property_changes s @ ys"
    and "property_changes s' = (xs @ [x]) @ zs" by (auto simp: prefix_def)
  then show ?thesis by (simp add: new_changes_def)
qed

lemma direct_option_changes:
  assumes "api_keeps_changes api" and "prefix (property_changes s) (property_changes s1)"
    and "direct_option api s1 co data flags = Inr (r, s')"
  shows "co_name co \<in> set (new_changes s s')"
proof -
  let ?n = "mp_notify_property s1 (co_name co)"
  from assms(1) have "prefix (property_changes ?n)
      (property_changes (snd (m_config_set_option_raw_direct api co data flags ?n)))"
    unfolding api_keeps_changes_def by blast
  moreover from assms(3) have "s' = snd (m_config_set_option_raw_direct api co data flags ?n)"
    by (auto simp: direct_option_def)
  ultimately have "prefix (property_changes s1 @ [co_name co]) (property_changes s')"
    by (simp add: mp_notify_property_def)
  with assms(2) show ?thesis by (rule in_new_changes)
qed

lemma mp_on_set_option_changes:
  assumes keep: "api_keeps_changes api"
    and res: "mp_on_set_option api s co data flags = Inr (0, s')"
  shows "co_name co \<in> set (new_changes s s')"
proof (cases "m_property_list_find api (co_name co) = Some True")
  case True
  with res have "direct_option api s co data flags = Inr (0, s')"
    by (simp add: mp_on_set_option_def)
  with keep show ?thesis by (intro direct_option_changes [of api s s co data flags 0 s']) auto
next
  case False
  obtain r out s1 where g: "mp_property_do_silent api (co_name co) M_PROPERTY_GET_TYPE s = (r, out, s1)"
    by (cases "mp_property_do_silent api (co_name co) M_PROPERTY_GET_TYPE s") auto
  from mp_property_do_silent_changes [OF keep g]
  have p1: "prefix (property_changes s) (property_changes s1)" by simp
  show ?thesis
  proof (cases "r = M_PROPERTY_UNKNOWN")
    case True
    with res False g have "direct_option api s1 co data flags = Inr (0, s')"
      by (simp add: mp_on_set_option_def)
    with keep p1 show ?thesis by (intro direct_option_changes [of api s s1 co data flags 0 s']) auto
  next
    case unk: False
    obtain r2 out2 s2 where st: "mp_property_do_silent api (co_name co) (M_PROPERTY_SET data) s1 = (r2, out2, s2)"
      by (cases "mp_property_do_silent api (co_name co) (M_PROPERTY_SET data) s1") auto
    from res False g unk st have ok: "r2 = M_PROPERTY_OK"
      and s': "s' = m_config_mark_co_flags api co flags s2"
      by (auto simp: mp_on_set_option_def M_OPT_INVALID_def split: if_splits)
    from mp_property_do_silent_changes [OF keep st] ok
    have n: "new_changes s1 s2 \<noteq> []" "last (new_changes s1 s2) = co_name co"
      and p2: "prefix (property_changes s1) (property_changes s2)" by simp_all
    from p2 obtain zs where zs: "property_changes s2 = property_changes s1 @ zs"
      by (auto simp: prefix_def)
    with n have "zs \<noteq> []" "last zs = co_name co" by (simp_all add: new_changes_def)
    then have "zs = butlast zs @ [co_name co]" by (metis append_butlast_last_id)
    with zs have "property_changes s2 = (property_changes s1 @ butlast zs) @ [co_name co]"
      by simp
    moreover from keep have "prefix (property_changes s2) (property_changes s')"
      unfolding api_keeps_changes_def s' by blast
    ultimately have "prefix ((property_changes s1 @ butlast zs) @ [co_name co]) (property_changes s')"
      by simp
    moreover from p1 have "prefix (property_changes s) (property_changes s1 @ butlast zs)"
      by (auto simp: prefix_def)
    ultimately show ?thesis by (intro in_new_changes [of s _ _ s'])
  qed
qed

lemma set_pause:
  "mp_property_do pause_api ''pause'' (M_PROPERTY_SET 1) playing =
     (M_PROPERTY_OK, No_out, playing\<lparr>player := 1, property_changes := [''pause'']\<rparr>)"
  by (simp add: mp_property_do_def mp_property_do_silent_def pause_api_def pause_property_def
        playing_def mp_notify_property_def Let_def M_PROPERTY_OK_def)

lemma set_pause_option:
  "mp_on_set_option pause_api playing pause_option 1 0 =
     Inr (0, playing\<lparr>player := 1, property_changes := [''pause'']\<rparr>)"
  by (simp add: mp_on_set_option_def mp_property_do_silent_def pause_api_def pause_property_def
        playing_def mp_notify_property_def Let_def M_PROPERTY_OK_def pause_option_def
        M_PROPERTY_UNKNOWN_def)

text \<open>
  C2, as the code has it. Every set-class operation (set, switch, multiply, set-string,
  set-node, or a key action around one of them) that returns \<^verbatim>\<open>M_PROPERTY_OK\<close> sends a
  change notification for that property name as its last notification, through
  \<^verbatim>\<open>mp_property_do\<close> and through \<^verbatim>\<open>mp_property_do_silent\<close> alike; and a call of
  \<^verbatim>\<open>mp_on_set_option\<close> that returns 0 has sent a notification for the option's name.
  (The collaborators are taken to only add notifications.) The silent variant differs in
  the verbose line, not in the notification.
\<close>

theorem set_class_operation_notifies:
  assumes "api_keeps_changes api"
  shows
    "(\<forall>r out s'. mp_property_do api name action s = (r, out, s') \<and> r = M_PROPERTY_OK \<and>
         is_property_set action \<longrightarrow>
         new_changes s s' \<noteq> [] \<and> last (new_changes s s') = name) \<and>
     (\<forall>r out s'. mp_property_do_silent api name action s = (r, out, s') \<and> r = M_PROPERTY_OK \<and>
         is_property_set action \<longrightarrow>
         new_changes s s' \<noteq> [] \<and> last (new_changes s s') = name) \<and>
     (\<forall>s'. mp_on_set_option api s co data flags = Inr (0, s') \<longrightarrow>
         co_name co \<in> set (new_changes s s'))"
  using mp_property_do_changes [OF assms] mp_property_do_silent_changes [OF assms]
    mp_on_set_option_changes [OF assms]
  by blast

theorem set_class_operation_notifies_witness:
  "last (new_changes playing (playing\<lparr>player := 1, property_changes := [''pause'']\<rparr>)) = ''pause'' \<and>
   ''pause'' \<in> set (new_changes playing (playing\<lparr>player := 1, property_changes := [''pause'']\<rparr>))"
proof -
  let ?s' = "playing\<lparr>player := 1, property_changes := [''pause'']\<rparr>"
  note T = set_class_operation_notifies [OF pause_api_keeps_changes,
      of "''pause''" "M_PROPERTY_SET 1" playing pause_option 1 0]
  have 1: "mp_property_do pause_api ''pause'' (M_PROPERTY_SET 1) playing =
      (M_PROPERTY_OK, No_out, ?s') \<and> M_PROPERTY_OK = M_PROPERTY_OK \<and>
      is_property_set (M_PROPERTY_SET (1::int))"
    using set_pause by simp
  have a: "last (new_changes playing ?s') = ''pause''"
    by (rule T [THEN conjunct1, THEN spec, THEN spec, THEN spec, THEN mp, OF 1, THEN conjunct2])
  have b: "''pause'' \<in> set (new_changes playing ?s')"
    using T [THEN conjunct2, THEN conjunct2, THEN spec, THEN mp, OF set_pause_option]
    by (simp add: pause_option_def)
  from a b show ?thesis by (rule conjI)
qed

text \<open>
  The claim as it was stated has the silent variant send no notification. Setting
  \<^verbatim>\<open>pause\<close> through \<^verbatim>\<open>mp_property_do_silent\<close> succeeds and sends one.
\<close>

theorem mp_property_do_silent_counterexample:
  "mp_property_do_silent pause_api ''pause'' (M_PROPERTY_SET 1) playing =
     (M_PROPERTY_OK, No_out, playing\<lparr>player := 1, property_changes := [''pause'']\<rparr>)"
  by (simp add: mp_property_do_silent_def pause_api_def pause_property_def
        playing_def mp_notify_property_def Let_def M_PROPERTY_OK_def)

subsection \<open>cycle-values\<close>

lemma cycle_values_find_found:
  "m \<le> n \<Longrightarrow> n < length cands \<Longrightarrow> candidate_matches api prop name curval (cands ! n) \<Longrightarrow>
   (\<forall>k. m \<le> k \<and> k < n \<longrightarrow> \<not> candidate_matches api prop name curval (cands ! k)) \<Longrightarrow>
   cycle_values_find api prop name curval cands m = int n"
proof (induction "n - m" arbitrary: m)
  case 0
  then have "m = n" by simp
  with 0 show ?case
    by (auto simp: cycle_values_find.simps [of api "prop" "name" curval cands n] candidate_matches_def
          compare_values_def Let_def split: prod.splits)
next
  case (Suc d)
  then have lt: "m < n" by simp
  with Suc.prems have ne: "\<not> candidate_matches api prop name curval (cands ! m)" by simp
  have "cycle_values_find api prop name curval cands (Suc m) = int n"
    using Suc.hyps(1) [of "Suc m"] Suc.hyps(2) Suc.prems lt by simp
  with lt ne Suc.prems(2) show ?case
    by (auto simp: cycle_values_find.simps [of api "prop" "name" curval cands m] candidate_matches_def
          compare_values_def Let_def split: prod.splits)
qed

text \<open>
  C8. \<^verbatim>\<open>cmd_cycle_values\<close>, once the property's type and current value have been read:
  each candidate is parsed with the property's type and its printed form is compared with
  the printed current value; for the first candidate \<open>n\<close> that matches, the property is
  set (as a string) to the candidate after it, or before it with \<^verbatim>\<open>!reverse\<close>, wrapping
  around inside the candidates.
\<close>

theorem cmd_cycle_values_next:
  assumes len: "2 \<le> length (args cmd)"
    and fd: "(first, dir) = (if strcmp (args cmd ! 0) ''!reverse'' = 0 then (1, - 1) else (0, 1 :: int))"
    and vals: "first + 1 < length (args cmd)"
    and ty: "mp_property_do api (args cmd ! first) M_PROPERTY_GET_TYPE s = (r1, Out_type prop, s1)"
    and ty_ok: "0 < r1"
    and cur: "mp_property_do api (args cmd ! first) M_PROPERTY_GET s1 = (r2, Out_value curval, s2)"
    and cur_ok: "0 < r2"
    and n: "first + 1 \<le> n" "n < length (args cmd)"
    and hit: "candidate_matches api prop (args cmd ! first) curval (args cmd ! n)"
    and miss: "\<forall>k. first + 1 \<le> k \<and> k < n \<longrightarrow>
                 \<not> candidate_matches api prop (args cmd ! first) curval (args cmd ! k)"
  shows "cmd_cycle_values api cmd s =
     Some (change_property_cmd api cmd (args cmd ! first)
             (M_PROPERTY_SET_STRING
                (args cmd !
                   (if 0 < dir then (if n + 1 < length (args cmd) then n + 1 else first + 1)
                    else (if first + 1 < n then n - 1 else length (args cmd) - 1))))
             s2)"
proof -
  have find: "cycle_values_find api prop (args cmd ! first) curval (args cmd) (first + 1) = int n"
    using n hit miss by (intro cycle_values_find_found) auto
  show ?thesis
  proof (cases "strcmp (args cmd ! 0) ''!reverse'' = 0")
    case True
    with fd have f: "first = 1" "dir = - 1" by simp_all
    have a1: "nat (int n - 1) = n - 1" using n by simp
    have a2: "nat (int (length (args cmd)) - 1) = length (args cmd) - 1" by simp
    show ?thesis
      using True len vals ty ty_ok cur cur_ok find n f a1 a2
      by (auto simp add: cmd_cycle_values_def Let_def)
  next
    case False
    with fd have f: "first = 0" "dir = 1" by simp_all
    have a1: "nat (int n + 1) = n + 1" by simp
    show ?thesis
      using False len vals ty ty_ok cur cur_ok find n f a1
      by (auto simp add: cmd_cycle_values_def Let_def)
  qed
qed

theorem cmd_cycle_values_next_witness:
  "cmd_cycle_values pause_api cycle_pause playing =
     Some (cycle_pause, playing\<lparr>player := 1, property_changes := [''pause'']\<rparr>)"
proof -
  have len: "2 \<le> length (args cycle_pause)" by (simp add: cycle_pause_def)
  have fd: "(0, 1) = (if strcmp (args cycle_pause ! 0) ''!reverse'' = 0 then (1, - 1) else (0::nat, 1 :: int))"
    by (simp add: cycle_pause_def)
  have vals: "0 + 1 < length (args cycle_pause)" by (simp add: cycle_pause_def)
  have ty: "mp_property_do pause_api (args cycle_pause ! 0) M_PROPERTY_GET_TYPE playing =
      (1, Out_type ''flag'', playing)"
    by (simp add: cycle_pause_def mp_property_do_def mp_property_do_silent_def pause_api_def
          pause_property_def playing_def Let_def M_PROPERTY_OK_def)
  have cur: "mp_property_do pause_api (args cycle_pause ! 0) M_PROPERTY_GET playing =
      (1, Out_value 0, playing)"
    by (simp add: cycle_pause_def mp_property_do_def mp_property_do_silent_def pause_api_def
          pause_property_def playing_def Let_def M_PROPERTY_OK_def)
  have n: "0 + 1 \<le> (2::nat)" "2 < length (args cycle_pause)" by (simp_all add: cycle_pause_def)
  have hit: "candidate_matches pause_api ''flag'' (args cycle_pause ! 0) 0 (args cycle_pause ! 2)"
    by (simp add: candidate_matches_def pause_api_def parse_flag_def cycle_pause_def bstr0_def)
  have miss: "\<forall>k. 0 + 1 \<le> k \<and> k < 2 \<longrightarrow>
      \<not> candidate_matches pause_api ''flag'' (args cycle_pause ! 0) 0 (args cycle_pause ! k)"
  proof (intro allI impI)
    fix k :: nat assume "0 + 1 \<le> k \<and> k < 2"
    then have "k = 1" by simp
    then show "\<not> candidate_matches pause_api ''flag'' (args cycle_pause ! 0) 0 (args cycle_pause ! k)"
      by (simp add: candidate_matches_def pause_api_def parse_flag_def cycle_pause_def bstr0_def)
  qed
  have "cmd_cycle_values pause_api cycle_pause playing =
     Some (change_property_cmd pause_api cycle_pause (args cycle_pause ! 0)
             (M_PROPERTY_SET_STRING
                (args cycle_pause !
                   (if 0 < (1::int) then (if 2 + 1 < length (args cycle_pause) then 2 + 1 else 0 + 1)
                    else (if 0 + 1 < (2::nat) then 2 - 1 else length (args cycle_pause) - 1))))
             playing)"
    by (rule cmd_cycle_values_next [OF len fd vals ty _ cur _ n hit miss]) simp_all
  also have "\<dots> = Some (cycle_pause, playing\<lparr>player := 1, property_changes := [''pause'']\<rparr>)"
    by (simp add: cycle_pause_def change_property_cmd_def mp_property_do_def
          mp_property_do_silent_def pause_api_def pause_property_def playing_def Let_def
          M_PROPERTY_OK_def M_PROPERTY_UNAVAILABLE_def parse_flag_def show_property_status_def
          mp_notify_property_def)
  finally show ?thesis .
qed

section \<open>Properties of the command pipeline\<close>

subsection \<open>Single steps\<close>

lemma mp_cmd_ctx_complete_caller:
  assumes "ctxs s a = Some ctx" and "on_completion ctx = Some (Caller_callback k)"
  shows "mp_cmd_ctx_complete api (Suc f) tid s a =
     Inr (s\<lparr>abort_list := (if abort ctx \<noteq> None then removeAll a (abort_list s) else abort_list s),
            ctxs := (ctxs s)(a := None),
            trace := trace s @ [Completion a (Caller_callback k) (success ctx), Ctx_freed a]\<rparr>)"
  using assms by (simp add: mp_cmd_ctx_complete.simps Let_def)

lemma mp_cmd_ctx_complete_detached:
  assumes "ctxs s a = Some ctx" and "on_completion ctx = None"
  shows "mp_cmd_ctx_complete api (Suc f) tid s a =
     Inr (s\<lparr>abort_list := (if abort ctx \<noteq> None then removeAll a (abort_list s) else abort_list s),
            ctxs := (ctxs s)(a := None),
            trace := trace s @ [Ctx_freed a]\<rparr>)"
  using assms by (simp add: mp_cmd_ctx_complete.simps Let_def)

lemma run_command_queue_fails:
  assumes "spawn_thread (cmd_def cmd)" and "\<not> mp_thread_pool_queue api (world s)"
    and "abort_ok cmd ab" and "expansion_ok api (world s) cmd"
  shows "\<exists>s'. run_command api (Suc (Suc f)) tid s cmd ab (Some (Caller_callback k)) = Inr s' \<and>
     trace s' = trace s @ [Completion (next_addr s) (Caller_callback k) False,
                           Ctx_freed (next_addr s)] \<and>
     world s' = world s \<and> thread_pool s' = thread_pool s \<and>
     outstanding_async s' = outstanding_async s \<and> ctxs s' (next_addr s) = None"
  using assms
  by (auto simp add: run_command.simps mp_cmd_ctx_complete_caller Let_def abort_ok_def
        expansion_ok_def split: prod.splits)

lemma run_command_plain_sub:
  assumes "sync_plain c" and "handler (cmd_def c) = Handler h"
    and "run_handler api h (cmd_args c) (world s) = (ok, w')"
    and "lists s l = Some lst" and "current_valid lst" and "current lst = tid"
  shows "run_command api (Suc (Suc (Suc f))) tid s c None (Some (On_cmd_list_sub_completion l)) =
     Inr (s\<lparr>world := w', ctxs := (ctxs s)(next_addr s := None),
            lists := (lists s)(l \<mapsto> lst\<lparr>completed_recursive := True\<rparr>),
            next_addr := Suc (next_addr s),
            trace := trace s @ [Handler_run (next_addr s) h,
                                Completion (next_addr s) (On_cmd_list_sub_completion l) ok,
                                Ctx_freed (next_addr s)]\<rparr>)"
  using assms
  by (simp add: run_command.simps call_handler.simps mp_cmd_ctx_complete.simps
        on_cmd_list_sub_completion.simps Let_def sync_plain_def)

subsection \<open>The list driver on synchronous sub-commands\<close>

lemma continue_cmd_list_plain:
  assumes "lists s l = Some lst" and "parent lst = a" and "ctxs s a = Some p"
    and "args p = Arg_cmds subs # others" and "on_completion p = Some (Caller_callback k)"
    and "\<forall>c \<in> set subs. sync_plain c"
    and "a < next_addr s" and "l < next_addr s" and "length subs + 3 \<le> f"
  shows "\<exists>s'. continue_cmd_list api f tid s l = Inr s' \<and>
     world s' = fst (run_subs api l (next_addr s) (world s) subs) \<and>
     trace s' = trace s @ snd (run_subs api l (next_addr s) (world s) subs) @
                [Completion a (Caller_callback k) (success p), Ctx_freed a, List_freed l] \<and>
     next_addr s' = next_addr s + length subs \<and> ctxs s' a = None \<and> lists s' l = None"
  using assms
proof (induction subs arbitrary: s f lst p)
  case Nil
  then have "2 \<le> f" by simp
  then obtain f' where f: "f = Suc (Suc f')"
    using le_Suc_ex [of 2 f] by auto
  from Nil show ?case
    by (simp add: f continue_cmd_list.simps mp_cmd_ctx_complete_caller)
next
  case (Cons c cs)
  then have "4 \<le> f" by simp
  then obtain f' where f: "f = Suc (Suc (Suc (Suc f')))"
    using le_Suc_ex [of 4 f] by auto
  from Cons.prems have plain: "sync_plain c" by simp
  then obtain h where h: "handler (cmd_def c) = Handler h"
    by (cases "handler (cmd_def c)") (auto simp: sync_plain_def)
  obtain ok w' where rh: "run_handler api h (cmd_args c) (world s) = (ok, w')"
    by (cases "run_handler api h (cmd_args c) (world s)")
  let ?p1 = "p\<lparr>args := Arg_cmds cs # others\<rparr>"
  let ?lst2 = "lst\<lparr>completed_recursive := False, current_valid := True, current := tid\<rparr>"
  let ?s2 = "s\<lparr>ctxs := (ctxs s)(a \<mapsto> ?p1), lists := (lists s)(l \<mapsto> ?lst2)\<rparr>"
  let ?b = "next_addr s"
  let ?lst3 = "?lst2\<lparr>completed_recursive := True\<rparr>"
  let ?lst4 = "?lst3\<lparr>current_valid := False\<rparr>"
  let ?s3 = "?s2\<lparr>world := w', ctxs := (ctxs ?s2)(next_addr ?s2 := None),
            lists := (lists ?s2)(l \<mapsto> ?lst3),
            next_addr := Suc (next_addr ?s2),
            trace := trace ?s2 @ [Handler_run (next_addr ?s2) h,
                                Completion (next_addr ?s2) (On_cmd_list_sub_completion l) ok,
                                Ctx_freed (next_addr ?s2)]\<rparr>"
  let ?s4 = "?s3\<lparr>lists := (lists ?s3)(l \<mapsto> ?lst4)\<rparr>"
  have sub: "run_command api (Suc (Suc (Suc f'))) tid ?s2 c None (Some (On_cmd_list_sub_completion l)) =
     Inr ?s3"
    by (rule run_command_plain_sub [OF plain h]) (simp_all add: rh)
  have step: "continue_cmd_list api f tid s l = continue_cmd_list api (Suc (Suc (Suc f'))) tid ?s4 l"
    using Cons.prems(1-4) plain sub
    by (simp add: f continue_cmd_list.simps(2) [of api "Suc (Suc (Suc f'))" tid s l] sync_plain_def Let_def)
  have ne: "a \<noteq> ?b" using Cons.prems(7) by simp
  have "\<exists>s'. continue_cmd_list api (Suc (Suc (Suc f'))) tid ?s4 l = Inr s' \<and>
     world s' = fst (run_subs api l (next_addr ?s4) (world ?s4) cs) \<and>
     trace s' = trace ?s4 @ snd (run_subs api l (next_addr ?s4) (world ?s4) cs) @
                [Completion a (Caller_callback k) (success ?p1), Ctx_freed a, List_freed l] \<and>
     next_addr s' = next_addr ?s4 + length cs \<and> ctxs s' a = None \<and> lists s' l = None"
  proof (rule Cons.IH)
    show "lists ?s4 l = Some ?lst4" by simp
    show "parent ?lst4 = a" using Cons.prems(2) by simp
    show "ctxs ?s4 a = Some ?p1" using ne by simp
    show "args ?p1 = Arg_cmds cs # others" by simp
    show "on_completion ?p1 = Some (Caller_callback k)" using Cons.prems(5) by simp
    show "\<forall>c \<in> set cs. sync_plain c" using Cons.prems(6) by simp
    show "a < next_addr ?s4" using Cons.prems(7) by simp
    show "l < next_addr ?s4" using Cons.prems(8) by simp
    show "length cs + 3 \<le> Suc (Suc (Suc f'))" using Cons.prems(9) f by simp
  qed
  then obtain s' where s': "continue_cmd_list api (Suc (Suc (Suc f'))) tid ?s4 l = Inr s'"
     "world s' = fst (run_subs api l (Suc ?b) w' cs)"
     "trace s' = trace ?s4 @ snd (run_subs api l (Suc ?b) w' cs) @
                [Completion a (Caller_callback k) (success p), Ctx_freed a, List_freed l]"
     "next_addr s' = Suc ?b + length cs" "ctxs s' a = None" "lists s' l = None"
    by auto
  from s' step show ?case
    by (simp add: h rh split: prod.splits)
qed

text \<open>
  C3, as the code has it. A list command whose sub-commands are synchronous plain
  commands runs every one of them in the order of the list, each on the player the one
  before left (a failed sub-command neither stops the list nor is undone), and then
  completes: the success flag its completion callback sees is true whatever the
  sub-commands reported, since the list driver never looks at a sub-command's flag.
\<close>

theorem cmd_list_runs_every_sub:
  assumes "handler (cmd_def cmd) = Cmd_list" and "exec_async (cmd_def cmd)"
    and "\<not> spawn_thread (cmd_def cmd)" and "\<not> MP_EXPAND_PROPERTIES cmd"
    and "\<not> can_abort (cmd_def cmd)"
    and "cmd_args cmd = [Arg_cmds subs]" and "\<forall>c \<in> set subs. sync_plain c"
    and "length subs + 6 \<le> f"
  shows "\<exists>s'. run_command api f tid s cmd None (Some (Caller_callback k)) = Inr s' \<and>
     world s' = fst (run_subs api (Suc (next_addr s)) (Suc (Suc (next_addr s))) (world s) subs) \<and>
     trace s' = trace s @
       snd (run_subs api (Suc (next_addr s)) (Suc (Suc (next_addr s))) (world s) subs) @
       [Completion (next_addr s) (Caller_callback k) True, Ctx_freed (next_addr s),
        List_freed (Suc (next_addr s))]"
proof -
  from assms(8) have "3 \<le> f" by simp
  then obtain f' where f: "f = Suc (Suc (Suc f'))"
    using le_Suc_ex [of 3 f] by (auto simp: numeral_3_eq_3)
  let ?a = "next_addr s"
  let ?p = "\<lparr>args = cmd_args cmd, success = True, def = cmd_def cmd, abort = None,
             completed = False, on_completion = Some (Caller_callback k)\<rparr>"
  let ?lst = "\<lparr>parent = ?a, current_valid = False, current = 0, completed_recursive = False\<rparr>"
  let ?s1 = "s\<lparr>ctxs := (ctxs s)(?a \<mapsto> ?p), lists := (lists s)(Suc ?a \<mapsto> ?lst),
               next_addr := Suc (Suc ?a)\<rparr>"
  have start: "run_command api f tid s cmd None (Some (Caller_callback k)) =
      continue_cmd_list api f' tid ?s1 (Suc ?a)"
    using assms(1-5)
    by (simp add: f run_command.simps call_handler.simps cmd_list.simps Let_def
          split: sum.splits)
  have "\<exists>s'. continue_cmd_list api f' tid ?s1 (Suc ?a) = Inr s' \<and>
     world s' = fst (run_subs api (Suc ?a) (next_addr ?s1) (world ?s1) subs) \<and>
     trace s' = trace ?s1 @ snd (run_subs api (Suc ?a) (next_addr ?s1) (world ?s1) subs) @
                [Completion ?a (Caller_callback k) (success ?p), Ctx_freed ?a, List_freed (Suc ?a)] \<and>
     next_addr s' = next_addr ?s1 + length subs \<and> ctxs s' ?a = None \<and> lists s' (Suc ?a) = None"
  proof (rule continue_cmd_list_plain)
    show "lists ?s1 (Suc ?a) = Some ?lst" by simp
    show "parent ?lst = ?a" by simp
    show "ctxs ?s1 ?a = Some ?p" by simp
    show "args ?p = Arg_cmds subs # []" using assms(6) by simp
    show "on_completion ?p = Some (Caller_callback k)" by simp
    show "\<forall>c \<in> set subs. sync_plain c" by (rule assms(7))
    show "?a < next_addr ?s1" by simp
    show "Suc ?a < next_addr ?s1" by simp
    show "length subs + 3 \<le> f'" using assms(8) f by simp
  qed
  with start show ?thesis by auto
qed

theorem cmd_list_runs_every_sub_witness:
  "map_sum id world (run_command log_api 10 0 idle three None (Some (Caller_callback 7))) =
     Inr [1, 2, 3]"
proof -
  have 1: "handler (cmd_def three) = Cmd_list" "exec_async (cmd_def three)"
    "\<not> spawn_thread (cmd_def three)" "\<not> MP_EXPAND_PROPERTIES three"
    "\<not> can_abort (cmd_def three)"
    by (simp_all add: three_def mp_cmd_list_def)
  have 2: "cmd_args three =
    [Arg_cmds [Mp_cmd (plain_def 1) False False [], Mp_cmd (plain_def 2) False False [],
               Mp_cmd (plain_def 3) False False []]]"
    by (simp add: three_def)
  have 3: "\<forall>c \<in> set [Mp_cmd (plain_def 1) False False [], Mp_cmd (plain_def 2) False False [],
               Mp_cmd (plain_def 3) False False []]. sync_plain c"
    by (simp add: sync_plain_def plain_def_def)
  have 4: "length [Mp_cmd (plain_def 1) False False [], Mp_cmd (plain_def 2) False False [],
               Mp_cmd (plain_def 3) False False []] + 6 \<le> (10::nat)" by simp
  from cmd_list_runs_every_sub [OF 1 2 3 4, of log_api 0 idle 7]
  obtain s' where "run_command log_api 10 0 idle three None (Some (Caller_callback 7)) = Inr s'"
    and "world s' = fst (run_subs log_api (Suc (next_addr idle)) (Suc (Suc (next_addr idle)))
       (world idle) [Mp_cmd (plain_def 1) False False [], Mp_cmd (plain_def 2) False False [],
               Mp_cmd (plain_def 3) False False []])"
    by blast
  then show ?thesis
    by (simp add: idle_def log_api_def plain_def_def)
qed

text \<open>
  The claim as it was stated has the list report failure when its second sub-command
  fails. The list of the handlers 1, 2 and 3 runs all three, the second reports
  failure, and the list itself completes with its success flag true.
\<close>

theorem cmd_list_second_fails_counterexample:
  "map_sum id trace (run_command log_api 10 0 idle three None (Some (Caller_callback 7))) =
     Inr [Handler_run 2 1, Completion 2 (On_cmd_list_sub_completion 1) True, Ctx_freed 2,
          Handler_run 3 2, Completion 3 (On_cmd_list_sub_completion 1) False, Ctx_freed 3,
          Handler_run 4 3, Completion 4 (On_cmd_list_sub_completion 1) True, Ctx_freed 4,
          Completion 0 (Caller_callback 7) True, Ctx_freed 0, List_freed 1]"
  by code_simp

subsection \<open>A worker pool that refuses the job\<close>

text \<open>
  C9. For a command whose definition asks for a worker thread, when the pool does not
  take the job, \<^verbatim>\<open>run_command\<close> goes straight to \<^verbatim>\<open>mp_cmd_ctx_complete\<close> on the new
  context with the success flag false and nothing else changed; with a callback of the
  submitter, it returns with that callback invoked once with success false and the
  context freed, no handler having run, the player and the pool as they were.
\<close>

theorem run_command_queue_failure:
  assumes "spawn_thread (cmd_def cmd)" and "\<not> mp_thread_pool_queue api (world s)"
    and "abort_ok cmd ab" and "expansion_ok api (world s) cmd"
  shows
    "(\<exists>s1 ctx. run_command api (Suc f) tid s cmd ab cb =
               mp_cmd_ctx_complete api f tid s1 (next_addr s) \<and>
        ctxs s1 (next_addr s) = Some ctx \<and> \<not> success ctx \<and> on_completion ctx = cb \<and>
        world s1 = world s \<and> trace s1 = trace s \<and> thread_pool s1 = thread_pool s \<and>
        outstanding_async s1 = outstanding_async s) \<and>
     (\<exists>s'. run_command api (Suc (Suc f)) tid s cmd ab (Some (Caller_callback k)) = Inr s' \<and>
        trace s' = trace s @ [Completion (next_addr s) (Caller_callback k) False,
                              Ctx_freed (next_addr s)] \<and>
        world s' = world s \<and> thread_pool s' = thread_pool s \<and>
        outstanding_async s' = outstanding_async s \<and> ctxs s' (next_addr s) = None)"
proof
  show "\<exists>s1 ctx. run_command api (Suc f) tid s cmd ab cb =
               mp_cmd_ctx_complete api f tid s1 (next_addr s) \<and>
        ctxs s1 (next_addr s) = Some ctx \<and> \<not> success ctx \<and> on_completion ctx = cb \<and>
        world s1 = world s \<and> trace s1 = trace s \<and> thread_pool s1 = thread_pool s \<and>
        outstanding_async s1 = outstanding_async s"
    using assms
    by (auto simp add: run_command.simps Let_def abort_ok_def expansion_ok_def
          split: prod.splits)
next
  show "\<exists>s'. run_command api (Suc (Suc f)) tid s cmd ab (Some (Caller_callback k)) = Inr s' \<and>
        trace s' = trace s @ [Completion (next_addr s) (Caller_callback k) False,
                              Ctx_freed (next_addr s)] \<and>
        world s' = world s \<and> thread_pool s' = thread_pool s \<and>
        outstanding_async s' = outstanding_async s \<and> ctxs s' (next_addr s) = None"
    using assms by (rule run_command_queue_fails)
qed

theorem run_command_queue_failure_witness:
  "map_sum id (\<lambda>s. (trace s, world s))
     (run_command log_api 2 0 after_quit subprocess None (Some (Caller_callback 7))) =
   Inr ([Completion 0 (Caller_callback 7) False, Ctx_freed 0], [0])"
proof -
  have 1: "spawn_thread (cmd_def subprocess)" by (simp add: subprocess_def worker_def_def)
  have 2: "\<not> mp_thread_pool_queue log_api (world after_quit)"
    by (simp add: log_api_def after_quit_def)
  have 3: "abort_ok subprocess None" by (simp add: abort_ok_def)
  have 4: "expansion_ok log_api (world after_quit) subprocess"
    by (simp add: expansion_ok_def subprocess_def)
  from run_command_queue_failure [OF 1 2 3 4, THEN conjunct2, of 0 0 7]
  obtain s' where "run_command log_api (Suc (Suc 0)) 0 after_quit subprocess None
        (Some (Caller_callback 7)) = Inr s'"
    and "trace s' = trace after_quit @ [Completion (next_addr after_quit) (Caller_callback 7) False,
                              Ctx_freed (next_addr after_quit)]"
    and "world s' = world after_quit" by blast
  then show ?thesis
    by (simp add: after_quit_def idle_def numeral_2_eq_2)
qed

subsection \<open>Completion, exactly once\<close>



end
